theory Spec2Isabelle
  imports Complex_Main "HOL-Library.Sublist"
begin

section \<open>Strings\<close>

text \<open>
  Python \<open>str\<close> values of the filter engine are modelled as \<^typ>\<open>string\<close>, read as ASCII
  text. \<open>str.lower\<close> and \<open>str.upper\<close> then change exactly the letters \<open>A\<close>--\<open>Z\<close> and
  \<open>a\<close>--\<open>z\<close>.
\<close>

definition is_upper :: "char \<Rightarrow> bool" where
  "is_upper c = (65 \<le> (of_char c :: nat) \<and> (of_char c :: nat) \<le> 90)"

definition is_lower :: "char \<Rightarrow> bool" where
  "is_lower c = (97 \<le> (of_char c :: nat) \<and> (of_char c :: nat) \<le> 122)"

definition lower_chr :: "char \<Rightarrow> char" where
  "lower_chr c = (if is_upper c then char_of ((of_char c :: nat) + 32) else c)"

definition upper_chr :: "char \<Rightarrow> char" where
  "upper_chr c = (if is_lower c then char_of ((of_char c :: nat) - 32) else c)"

definition str_lower :: "string \<Rightarrow> string" where
  "str_lower s = map lower_chr s"

definition str_upper :: "string \<Rightarrow> string" where
  "str_upper s = map upper_chr s"

text \<open>\<open>s.find(sub)\<close>: the least index at which \<open>sub\<close> occurs in \<open>s\<close>, if any.\<close>

fun find_sub :: "'a list \<Rightarrow> 'a list \<Rightarrow> nat option" where
  "find_sub sub [] = (if sub = [] then Some 0 else None)"
| "find_sub sub (c # s) =
     (if prefix sub (c # s) then Some 0 else map_option Suc (find_sub sub s))"

text \<open>\<open>sub in s\<close> on strings.\<close>

definition contains :: "'a list \<Rightarrow> 'a list \<Rightarrow> bool" where
  "contains sub s = (find_sub sub s \<noteq> None)"

text \<open>
  No non-empty suffix of \<open>t\<close> begins with \<open>q\<close> or is the beginning of \<open>q\<close>: a test used to
  tell where occurrences of one string can lie once another is inserted.
\<close>

fun no_cross :: "'a list \<Rightarrow> 'a list \<Rightarrow> bool" where
  "no_cross q [] = True"
| "no_cross q (c # t) = (\<not> prefix q (c # t) \<and> \<not> prefix (c # t) q \<and> no_cross q t)"

text \<open>Truth value of an \<open>Optional[str]\<close>: \<open>None\<close> and the empty string are false.\<close>

definition truthy :: "string option \<Rightarrow> bool" where
  "truthy x = (case x of None \<Rightarrow> False | Some s \<Rightarrow> s \<noteq> [])"

section \<open>Library functions the engine calls\<close>

text \<open>
  \<open>urllib.parse.urlparse\<close> and the \<open>re\<close> module are not part of the repository. The
  engine is written against them, so the model takes them as a parameter: \<open>urlparse\<close>
  gives the authority and the path of a URL, or \<open>None\<close> where the library raises
  \<open>ValueError\<close>; \<open>re_compile\<close> gives a compiled pattern, or \<open>None\<close> where the library
  raises \<open>re.error\<close>; \<open>re_search\<close> says whether a compiled pattern matches somewhere in
  a string.
\<close>

record url_parts =
  netloc :: string
  url_path :: string

datatype re_flag = IGNORECASE

record 'rx pylib =
  urlparse :: "string \<Rightarrow> url_parts option"
  re_compile :: "string \<Rightarrow> re_flag list \<Rightarrow> 'rx option"
  re_search :: "'rx \<Rightarrow> string \<Rightarrow> bool"

section \<open>The rule model\<close>

record filter_rule =
  pattern :: string
  action :: string
  domain :: "string option"
  path :: "string option"
  rule_method :: "string option"
  content_type :: "string option"
  headers :: "(string \<times> string) list option"
  priority :: int
  enabled :: bool
  description :: string

text \<open>\<open>FilterRule(pattern, action)\<close>, the other fields at the defaults of the dataclass.\<close>

definition FilterRule :: "string \<Rightarrow> string \<Rightarrow> filter_rule" where
  "FilterRule p a =
     \<lparr> pattern = p, action = a, domain = None, path = None, rule_method = None,
       content_type = None, headers = None, priority = 0, enabled = True, description = [] \<rparr>"

text \<open>
  The state of a \<open>FilterEngine\<close>. Dictionaries are maps, the two domain sets are sets,
  clock readings (\<open>time.time()\<close>) are real numbers.
\<close>

record 'rx filter_engine =
  rules :: "filter_rule list"
  domain_rules :: "string \<rightharpoonup> filter_rule list"
  path_rules :: "string \<rightharpoonup> filter_rule list"
  regex_rules :: "('rx \<times> filter_rule) list"
  whitelist_domains :: "string set"
  blacklist_domains :: "string set"
  cache :: "string \<rightharpoonup> bool"
  cache_ttl :: real
  cache_expiry :: "string \<rightharpoonup> real"

text \<open>The fields as \<open>__init__\<close> sets them, before any configuration is loaded.\<close>

definition new_engine :: "'rx filter_engine" where
  "new_engine =
     \<lparr> rules = [], domain_rules = Map.empty, path_rules = Map.empty, regex_rules = [],
       whitelist_domains = {}, blacklist_domains = {}, cache = Map.empty,
       cache_ttl = 300, cache_expiry = Map.empty \<rparr>"

text \<open>The characters \<open>add_rule\<close> and \<open>should_block\<close> look for in a pattern.\<close>

definition regex_chars :: string where
  "regex_chars = ''.*+?^${}()|[]'' @ [CHR 0x5C]"

definition has_regex_char :: "string \<Rightarrow> bool" where
  "has_regex_char p = (\<exists>c \<in> set regex_chars. c \<in> set p)"

text \<open>The rules an index holds under a key, none when the key is not in the dictionary.\<close>

definition bucket :: "(string \<rightharpoonup> filter_rule list) \<Rightarrow> string \<Rightarrow> filter_rule list" where
  "bucket m k = (case m k of None \<Rightarrow> [] | Some rs \<Rightarrow> rs)"

text \<open>\<open>if k not in d: d[k] = []\<close> followed by \<open>d[k].append(r)\<close>.\<close>

definition index_append ::
    "(string \<rightharpoonup> filter_rule list) \<Rightarrow> string \<Rightarrow> filter_rule \<Rightarrow> (string \<rightharpoonup> filter_rule list)" where
  "index_append m k r = m(k \<mapsto> bucket m k @ [r])"

definition add_rule :: "'rx pylib \<Rightarrow> 'rx filter_engine \<Rightarrow> filter_rule \<Rightarrow> 'rx filter_engine" where
  "add_rule lib s rule =
     (let s1 = s\<lparr>rules := rules s @ [rule]\<rparr>;
          s2 = (if truthy (domain rule)
                then s1\<lparr>domain_rules := index_append (domain_rules s1) (the (domain rule)) rule\<rparr>
                else s1);
          s3 = (if truthy (path rule)
                then s2\<lparr>path_rules := index_append (path_rules s2) (the (path rule)) rule\<rparr>
                else s2)
      in if has_regex_char (pattern rule)
         then (case re_compile lib (pattern rule) [IGNORECASE] of
                 Some regex \<Rightarrow> s3\<lparr>regex_rules := regex_rules s3 @ [(regex, rule)]\<rparr>
               | None \<Rightarrow> s3)
         else s3)"

text \<open>The loop \<open>for rule in ...: self.add_rule(rule)\<close> of the two loaders.\<close>

definition add_rules :: "'rx pylib \<Rightarrow> 'rx filter_engine \<Rightarrow> filter_rule list \<Rightarrow> 'rx filter_engine" where
  "add_rules lib s rs = foldl (add_rule lib) s rs"

text \<open>
  \<open>load_config\<close> once the file is read and parsed (reading and parsing are outside the
  model): the three keys of the configuration the engine looks at, each the empty list
  when the key is absent, and the rules already built by \<open>FilterRule(**rule_data)\<close>.
\<close>

record config =
  cfg_whitelist_domains :: "string list"
  cfg_blacklist_domains :: "string list"
  cfg_rules :: "filter_rule list"

definition load_config :: "'rx pylib \<Rightarrow> 'rx filter_engine \<Rightarrow> config \<Rightarrow> 'rx filter_engine" where
  "load_config lib s cfg =
     add_rules lib
       (s\<lparr>whitelist_domains := set (cfg_whitelist_domains cfg),
          blacklist_domains := set (cfg_blacklist_domains cfg)\<rparr>)
       (cfg_rules cfg)"

section \<open>Matching\<close>

text \<open>
  \<open>_match_rule\<close>. The caller's headers are an optional dictionary, here an association
  list read with \<open>map_of\<close>; an absent or empty dictionary is false in a condition.
\<close>

definition match_rule ::
    "filter_rule \<Rightarrow> string \<Rightarrow> string \<Rightarrow> (string \<times> string) list option \<Rightarrow> string option \<Rightarrow> bool" where
  "match_rule rule url meth hdrs ctype =
     (if \<not> enabled rule then False
      else if truthy (rule_method rule) \<and> str_upper (the (rule_method rule)) \<noteq> str_upper meth then False
      else if truthy (content_type rule) \<and> truthy ctype
                \<and> \<not> contains (the (content_type rule)) (the ctype) then False
      else if (case headers rule of None \<Rightarrow> False | Some rh \<Rightarrow> rh \<noteq> [])
                \<and> (case hdrs of None \<Rightarrow> False | Some h \<Rightarrow> h \<noteq> [])
           then list_all (\<lambda>(key, val). map_of (the hdrs) key = Some val) (the (headers rule))
      else True)"

text \<open>\<open>_update_cache\<close>, at clock reading \<open>now\<close>.\<close>

definition update_cache :: "'rx filter_engine \<Rightarrow> real \<Rightarrow> string \<Rightarrow> bool \<Rightarrow> 'rx filter_engine" where
  "update_cache s now key result =
     s\<lparr>cache := (cache s)(key \<mapsto> result),
       cache_expiry := (cache_expiry s)(key \<mapsto> now + cache_ttl s)\<rparr>"

text \<open>The cache test of \<open>should_block\<close>: the key is cached and its expiry lies ahead.\<close>

definition cache_hit :: "'rx filter_engine \<Rightarrow> real \<Rightarrow> string \<Rightarrow> bool" where
  "cache_hit s now key =
     (cache s key \<noteq> None \<and> now < (case cache_expiry s key of None \<Rightarrow> 0 | Some e \<Rightarrow> e))"

text \<open>
  The rules the last loop of \<open>should_block\<close> does not skip: no domain, no path, and no
  regex character in the pattern.
\<close>

definition fallback_literal :: "filter_rule \<Rightarrow> bool" where
  "fallback_literal rule =
     (\<not> (truthy (domain rule) \<or> truthy (path rule) \<or> has_regex_char (pattern rule)))"

text \<open>The first rule of a tier that matches decides: its verdict is cached and returned.\<close>

definition decide_by ::
    "'rx filter_engine \<Rightarrow> real \<Rightarrow> string \<Rightarrow> filter_rule
       \<Rightarrow> (bool \<times> filter_rule option) \<times> 'rx filter_engine" where
  "decide_by s now key rule =
     (let act = (action rule = ''block'') in ((act, Some rule), update_cache s now key act))"

text \<open>
  \<open>should_block\<close>, called at clock reading \<open>now\<close>. The result is \<open>None\<close> where \<open>urlparse\<close>
  raises, and otherwise the returned pair together with the engine after the call. A
  call reads the clock for the cache test and again in \<open>_update_cache\<close>; the model takes
  both readings to be \<open>now\<close>.
\<close>

definition should_block ::
    "'rx pylib \<Rightarrow> 'rx filter_engine \<Rightarrow> real \<Rightarrow> string \<Rightarrow> string
       \<Rightarrow> (string \<times> string) list option \<Rightarrow> string option
       \<Rightarrow> ((bool \<times> filter_rule option) \<times> 'rx filter_engine) option" where
  "should_block lib s now url meth hdrs ctype =
     (case urlparse lib url of
        None \<Rightarrow> None
      | Some parsed \<Rightarrow>
          let domain' = str_lower (netloc parsed);
              path' = url_path parsed;
              cache_key = meth @ '':'' @ url;
              m = (\<lambda>rule. match_rule rule url meth hdrs ctype)
          in Some (
            if cache_hit s now cache_key
            then ((the (cache s cache_key), None), s)
            else if domain' \<in> whitelist_domains s
            then ((False, None), update_cache s now cache_key False)
            else if domain' \<in> blacklist_domains s
            then ((True, None), update_cache s now cache_key True)
            else
              (case find m (bucket (domain_rules s) domain') of
                 Some rule \<Rightarrow> decide_by s now cache_key rule
               | None \<Rightarrow>
              (case find m (bucket (path_rules s) path') of
                 Some rule \<Rightarrow> decide_by s now cache_key rule
               | None \<Rightarrow>
              (case find (\<lambda>(regex, rule). re_search lib regex url \<and> m rule) (regex_rules s) of
                 Some (regex, rule) \<Rightarrow> decide_by s now cache_key rule
               | None \<Rightarrow>
              (case find (\<lambda>rule. fallback_literal rule \<and> contains (pattern rule) url \<and> m rule)
                      (rules s) of
                 Some rule \<Rightarrow> decide_by s now cache_key rule
               | None \<Rightarrow> ((False, None), update_cache s now cache_key False)))))))"

section \<open>An instance of the library, for evaluating examples\<close>

text \<open>
  \<open>urlparse\<close> on plain URLs: ASCII text without control characters, without \<open>;\<close>
  parameters and without brackets in the authority. A scheme is split off at the first
  colon when the text before it is a letter followed by scheme characters; an authority
  follows \<open>//\<close> and ends at the first of \<open>/\<close>, \<open>?\<close> and \<open>#\<close>; the path ends at the first
  \<open>?\<close> or \<open>#\<close>. A bracket in the authority is answered with \<open>ValueError\<close>, which is what
  the library does when the brackets do not enclose an IP literal.
\<close>

definition is_alpha :: "char \<Rightarrow> bool" where
  "is_alpha c = (is_upper c \<or> is_lower c)"

definition is_scheme_char :: "char \<Rightarrow> bool" where
  "is_scheme_char c =
     (is_alpha c \<or> (48 \<le> (of_char c :: nat) \<and> (of_char c :: nat) \<le> 57) \<or> c \<in> set ''+-.'')"

definition drop_scheme :: "string \<Rightarrow> string" where
  "drop_scheme url =
     (let pre = takeWhile (\<lambda>c. c \<noteq> CHR '':'') url in
      if length pre < length url \<and> pre \<noteq> [] \<and> is_alpha (hd pre) \<and> list_all is_scheme_char pre
      then drop (Suc (length pre)) url else url)"

definition urlparse_plain :: "string \<Rightarrow> url_parts option" where
  "urlparse_plain url =
     (let rest = drop_scheme url;
          delim = (\<lambda>c. c \<in> set ''/?#'');
          loc = (if take 2 rest = ''//'' then takeWhile (\<lambda>c. \<not> delim c) (drop 2 rest) else []);
          rest' = (if take 2 rest = ''//'' then dropWhile (\<lambda>c. \<not> delim c) (drop 2 rest) else rest)
      in if CHR ''['' \<in> set loc \<or> CHR '']'' \<in> set loc then None
         else Some \<lparr> netloc = loc, url_path = takeWhile (\<lambda>c. c \<notin> set ''?#'') rest' \<rparr>)"

text \<open>
  A fragment of \<open>re\<close>: a pattern is a sequence of ordinary characters, \<open>.\<close> (any character
  but a newline) and backslash-escaped punctuation, each optionally followed by \<open>*\<close>.
  Every other pattern is answered with \<open>re.error\<close> here, so the instance is only to be
  applied to patterns of the fragment. With \<open>IGNORECASE\<close> letters are compared after
  lowering them.
\<close>

datatype re_atom = Lit char | AnyChar

type_synonym mini_re = "bool \<times> (re_atom \<times> bool) list"

definition is_alnum :: "char \<Rightarrow> bool" where
  "is_alnum c = (is_alpha c \<or> (48 \<le> (of_char c :: nat) \<and> (of_char c :: nat) \<le> 57))"

fun re_parse :: "string \<Rightarrow> (re_atom \<times> bool) list option" where
  "re_parse [] = Some []"
| "re_parse (c # cs) =
     (if c = CHR 0x5C then
        (case cs of
           [] \<Rightarrow> None
         | e # cs' \<Rightarrow>
             if is_alnum e then None
             else (case cs' of
                     x # cs'' \<Rightarrow>
                       if x = CHR ''*'' then map_option ((#) (Lit e, True)) (re_parse cs'')
                       else map_option ((#) (Lit e, False)) (re_parse cs')
                   | [] \<Rightarrow> Some [(Lit e, False)]))
      else if c \<in> set ''*+?^${}()|[]'' then None
      else
        (let a = (if c = CHR ''.'' then AnyChar else Lit c) in
         case cs of
           x # cs' \<Rightarrow>
             if x = CHR ''*'' then map_option ((#) (a, True)) (re_parse cs')
             else map_option ((#) (a, False)) (re_parse cs)
         | [] \<Rightarrow> Some [(a, False)]))"

definition mini_compile :: "string \<Rightarrow> re_flag list \<Rightarrow> mini_re option" where
  "mini_compile p flags = map_option (Pair (IGNORECASE \<in> set flags)) (re_parse p)"

fun atom_ok :: "bool \<Rightarrow> re_atom \<Rightarrow> char \<Rightarrow> bool" where
  "atom_ok ic (Lit a) c = (if ic then lower_chr a = lower_chr c else a = c)"
| "atom_ok ic AnyChar c = (c \<noteq> CHR 0x0A)"

fun match_here :: "bool \<Rightarrow> (re_atom \<times> bool) list \<Rightarrow> string \<Rightarrow> bool" where
  "match_here ic [] s = True"
| "match_here ic ((a, False) # items) [] = False"
| "match_here ic ((a, False) # items) (c # s) = (atom_ok ic a c \<and> match_here ic items s)"
| "match_here ic ((a, True) # items) [] = match_here ic items []"
| "match_here ic ((a, True) # items) (c # s) =
     (match_here ic items (c # s) \<or> (atom_ok ic a c \<and> match_here ic ((a, True) # items) s))"

fun search_from :: "bool \<Rightarrow> (re_atom \<times> bool) list \<Rightarrow> string \<Rightarrow> bool" where
  "search_from ic items [] = match_here ic items []"
| "search_from ic items (c # s) = (match_here ic items (c # s) \<or> search_from ic items s)"

definition mini_search :: "mini_re \<Rightarrow> string \<Rightarrow> bool" where
  "mini_search rx s = search_from (fst rx) (snd rx) s"

definition plain_lib :: "mini_re pylib" where
  "plain_lib = \<lparr> urlparse = urlparse_plain, re_compile = mini_compile, re_search = mini_search \<rparr>"

section \<open>Request headers\<close>

text \<open>
  The request headers of a flow are mitmproxy's \<open>Headers\<close>, which is not part of the
  repository: an ordered sequence of fields whose names are compared after lowering
  them. \<open>name in headers\<close> asks for a field of that name, \<open>del headers[name]\<close> removes
  every field of that name, \<open>headers[name] = value\<close> gives the first field of that name
  the new value and removes the others, or appends a field when there is none, and
  \<open>headers.get_all(name)\<close> lists the values of the fields of that name.
\<close>

type_synonym http_headers = "(string \<times> string) list"

definition same_name :: "string \<Rightarrow> string \<Rightarrow> bool" where
  "same_name a b = (str_lower a = str_lower b)"

definition hdr_in :: "string \<Rightarrow> http_headers \<Rightarrow> bool" where
  "hdr_in name hs = list_ex (\<lambda>(k, v). same_name k name) hs"

definition hdr_del :: "string \<Rightarrow> http_headers \<Rightarrow> http_headers" where
  "hdr_del name hs = filter (\<lambda>(k, v). \<not> same_name k name) hs"

fun hdr_replace :: "string \<Rightarrow> string \<Rightarrow> http_headers \<Rightarrow> http_headers" where
  "hdr_replace name val [] = []"
| "hdr_replace name val ((k, v) # hs) =
     (if same_name k name then (k, val) # hdr_del name hs else (k, v) # hdr_replace name val hs)"

definition hdr_set :: "string \<Rightarrow> string \<Rightarrow> http_headers \<Rightarrow> http_headers" where
  "hdr_set name val hs = (if hdr_in name hs then hdr_replace name val hs else hs @ [(name, val)])"

definition hdr_get_all :: "string \<Rightarrow> http_headers \<Rightarrow> string list" where
  "hdr_get_all name hs = map snd (filter (\<lambda>(k, v). same_name k name) hs)"

definition headers_to_remove :: "string list" where
  "headers_to_remove =
     [''proxy-connection'', ''proxy-authorization'', ''x-forwarded-for'', ''x-real-ip'', ''via'']"

definition set_if_absent :: "string \<Rightarrow> string \<Rightarrow> http_headers \<Rightarrow> http_headers" where
  "set_if_absent name val hs = (if \<not> hdr_in name hs then hdr_set name val hs else hs)"

text \<open>The two long header values \<open>_add_stealth_headers\<close> fills in.\<close>

definition default_user_agent :: string where
  "default_user_agent =
     ''Mozilla/5.0 (Windows NT 10.0; Win64; x64) AppleWebKit/537.36 ''
     @ ''(KHTML, like Gecko) Chrome/120.0.0.0 Safari/537.36''"

definition default_accept :: string where
  "default_accept =
     ''text/html,application/xhtml+xml,application/xml;q=0.9,'' @ ''image/webp,*/*;q=0.8''"

text \<open>\<open>_add_stealth_headers\<close>, as a function of the request headers of the flow.\<close>

definition add_stealth_headers :: "http_headers \<Rightarrow> http_headers" where
  "add_stealth_headers hs =
     (let h1 = foldl (\<lambda>h header. if hdr_in header h then hdr_del header h else h)
                 hs headers_to_remove;
          h2 = set_if_absent ''user-agent'' default_user_agent h1;
          h3 = set_if_absent ''accept'' default_accept h2;
          h4 = set_if_absent ''accept-language'' ''en-US,en;q=0.5'' h3;
          h5 = set_if_absent ''accept-encoding'' ''gzip, deflate'' h4;
          h6 = hdr_set ''dnt'' ''1'' h5;
          h7 = hdr_set ''connection'' ''keep-alive'' h6
      in hdr_set ''upgrade-insecure-requests'' ''1'' h7)"

section \<open>UTF-8\<close>

text \<open>
  A \<open>bytes\<close> value is a list of numbers below 256 and a \<open>str\<close> of the content processor
  is a list of code points. \<open>utf8_decode\<close> is \<open>bytes.decode('utf-8')\<close>: it accepts the
  well-formed byte sequences of the Unicode standard (no overlong forms, no surrogates,
  nothing above \<open>U+10FFFF\<close>) and is \<open>None\<close> where Python raises \<open>UnicodeDecodeError\<close>.
  \<open>utf8_encode\<close> is \<open>str.encode('utf-8')\<close>, \<open>None\<close> where Python raises
  \<open>UnicodeEncodeError\<close>.
\<close>

type_synonym bytes = "nat list"
type_synonym ustr = "nat list"

definition cont_byte :: "nat \<Rightarrow> bool" where
  "cont_byte b = (128 \<le> b \<and> b < 192)"

fun utf8_decode :: "bytes \<Rightarrow> ustr option" where
  "utf8_decode [] = Some []"
| "utf8_decode (b0 # bs) =
     (if b0 < 128 then map_option ((#) b0) (utf8_decode bs)
      else if 194 \<le> b0 \<and> b0 < 224 then
        (case bs of
           b1 # r \<Rightarrow>
             if cont_byte b1
             then map_option ((#) ((b0 - 192) * 64 + (b1 - 128))) (utf8_decode r)
             else None
         | _ \<Rightarrow> None)
      else if 224 \<le> b0 \<and> b0 < 240 then
        (case bs of
           b1 # b2 # r \<Rightarrow>
             if cont_byte b1 \<and> cont_byte b2
                \<and> (if b0 = 224 then 160 \<le> b1 else True)
                \<and> (if b0 = 237 then b1 < 160 else True)
             then map_option ((#) ((b0 - 224) * 4096 + (b1 - 128) * 64 + (b2 - 128)))
                    (utf8_decode r)
             else None
         | _ \<Rightarrow> None)
      else if 240 \<le> b0 \<and> b0 < 245 then
        (case bs of
           b1 # b2 # b3 # r \<Rightarrow>
             if cont_byte b1 \<and> cont_byte b2 \<and> cont_byte b3
                \<and> (if b0 = 240 then 144 \<le> b1 else True)
                \<and> (if b0 = 244 then b1 < 144 else True)
             then map_option
                    ((#) ((b0 - 240) * 262144 + (b1 - 128) * 4096 + (b2 - 128) * 64 + (b3 - 128)))
                    (utf8_decode r)
             else None
         | _ \<Rightarrow> None)
      else None)"

definition encodable :: "nat \<Rightarrow> bool" where
  "encodable cp = (cp < 1114112 \<and> \<not> (55296 \<le> cp \<and> cp < 57344))"

definition encode_cp :: "nat \<Rightarrow> bytes" where
  "encode_cp cp =
     (if cp < 128 then [cp]
      else if cp < 2048 then [192 + cp div 64, 128 + cp mod 64]
      else if cp < 65536 then [224 + cp div 4096, 128 + cp div 64 mod 64, 128 + cp mod 64]
      else [240 + cp div 262144, 128 + cp div 4096 mod 64, 128 + cp div 64 mod 64,
            128 + cp mod 64])"

definition utf8_encode :: "ustr \<Rightarrow> bytes option" where
  "utf8_encode s = (if list_all encodable s then Some (concat (map encode_cp s)) else None)"

text \<open>An ASCII literal of the source as a \<open>str\<close>.\<close>

definition lit :: "string \<Rightarrow> ustr" where
  "lit s = map of_char s"

section \<open>The content processor\<close>

record content_processor =
  cosmetic_rules :: "ustr list"
  scriptlet_rules :: "ustr list"

text \<open>The two lists as \<open>ContentProcessor.__init__\<close> sets them.\<close>

definition new_content_processor :: content_processor where
  \<open>new_content_processor =
     \<lparr> cosmetic_rules = map lit
         [''.advertisement'', ''.ad-banner'', ''.ad-container'',
          ''[id*='' @ [CHR 0x27] @ ''ad'' @ [CHR 0x27] @ '']'',
          ''[class*='' @ [CHR 0x27] @ ''ad'' @ [CHR 0x27] @ '']'',
          ''#ads'', ''.ads'', ''.adsystem'', ''.googlesyndication'', ''.doubleclick'',
          ''.googletagmanager'', ''.facebook-tracking'', ''.twitter-tracking'', ''.analytics''],
       scriptlet_rules = map lit
         [''window.google_tag_manager = undefined;'',
          ''window.ga = function(){};'',
          ''window.gtag = function(){};'',
          ''window._gaq = [];'',
          ''window.GoogleAnalyticsObject = undefined;'',
          ''window.fbq = function(){};'',
          ''window._fbq = function(){};'',
          ''window.twq = function(){};'',
          ''console.log('' @ [CHR 0x27] @ ''[OblivionFilter] Blocked tracking script''
            @ [CHR 0x27] @ '');''] \<rparr>\<close>

text \<open>\<open>sep.join(xs)\<close>.\<close>

fun join :: "'a list \<Rightarrow> 'a list list \<Rightarrow> 'a list" where
  "join sep [] = []"
| "join sep [x] = x"
| "join sep (x # y # ys) = x @ sep @ join sep (y # ys)"

text \<open>\<open>s.replace(old, new, 1)\<close>: the first occurrence of \<open>old\<close> is replaced.\<close>

definition replace_first :: "'a list \<Rightarrow> 'a list \<Rightarrow> 'a list \<Rightarrow> 'a list" where
  "replace_first old new s =
     (case find_sub old s of
        None \<Rightarrow> s
      | Some i \<Rightarrow> take i s @ new @ drop (i + length old) s)"

definition generate_cosmetic_css :: "content_processor \<Rightarrow> ustr" where
  "generate_cosmetic_css cp =
     join [10] (map (\<lambda>rule. rule @ lit '' { display: none !important; }'') (cosmetic_rules cp))"

definition generate_scriptlet_js :: "content_processor \<Rightarrow> ustr" where
  "generate_scriptlet_js cp = join [10] (scriptlet_rules cp)"

definition style_tag :: "content_processor \<Rightarrow> ustr" where
  \<open>style_tag cp =
     lit (''<style type='' @ [CHR 0x22] @ ''text/css'' @ [CHR 0x22] @ ''>'')
       @ generate_cosmetic_css cp @ lit ''</style>''\<close>

definition script_tag :: "content_processor \<Rightarrow> ustr" where
  \<open>script_tag cp =
     lit (''<script type='' @ [CHR 0x22] @ ''text/javascript'' @ [CHR 0x22] @ ''>'')
       @ generate_scriptlet_js cp @ lit ''</script>''\<close>

text \<open>
  \<open>process_html\<close>. The result is \<open>None\<close> where the final \<open>encode\<close> raises, which the
  \<open>except UnicodeDecodeError\<close> clause does not catch.
\<close>

definition process_html :: "content_processor \<Rightarrow> bytes \<Rightarrow> string \<Rightarrow> bytes option" where
  "process_html cp content url =
     (case utf8_decode content of
        None \<Rightarrow> Some content
      | Some html \<Rightarrow>
          let html1 =
                (if generate_cosmetic_css cp \<noteq> [] then
                   (if contains (lit ''</head>'') html
                    then replace_first (lit ''</head>'') (style_tag cp @ lit ''</head>'') html
                    else if contains (lit ''<body'') html
                    then replace_first (lit ''<body'') (style_tag cp @ lit ''<body'') html
                    else html)
                 else html);
              html2 =
                (if generate_scriptlet_js cp \<noteq> [] then
                   (if contains (lit ''</body>'') html1
                    then replace_first (lit ''</body>'') (script_tag cp @ lit ''</body>'') html1
                    else html1 @ script_tag cp)
                 else html1)
          in utf8_encode html2)"

section \<open>Example engines and requests\<close>

definition ex_url :: string where
  "ex_url = ''http://ads.example.com/x''"

text \<open>An engine whose only rule blocks every URL containing \<open>ads\<close>.\<close>

definition ex_engine :: "mini_re filter_engine" where
  "ex_engine = add_rule plain_lib new_engine (FilterRule ''ads'' ''block'')"

text \<open>That engine after a first request for \<open>ex_url\<close> at time 0.\<close>

definition ex_engine_used :: "mini_re filter_engine" where
  "ex_engine_used = snd (the (should_block plain_lib ex_engine 0 ex_url ''GET'' None None))"

text \<open>A domain-indexed rule that allows the host of \<open>ex_url\<close>.\<close>

definition ex_allow_rule :: filter_rule where
  "ex_allow_rule = (FilterRule ''ads.example.com'' ''allow'')\<lparr>domain := Some ''ads.example.com''\<rparr>"

text \<open>
  The used engine after a second request at time 299 and the addition of the allowing
  rule.
\<close>

definition ex_engine_changed :: "mini_re filter_engine" where
  "ex_engine_changed =
     add_rule plain_lib
       (snd (the (should_block plain_lib ex_engine_used 299 ex_url ''GET'' None None)))
       ex_allow_rule"

text \<open>An engine without rules after a first request for \<open>ex_url\<close> at time 0.\<close>

definition ex_empty_used :: "mini_re filter_engine" where
  "ex_empty_used = snd (the (should_block plain_lib new_engine 0 ex_url ''GET'' None None))"

text \<open>An engine that lists the host of \<open>ex_url\<close> in both sets and has the blocking rule.\<close>

definition ex_listed_engine :: "mini_re filter_engine" where
  "ex_listed_engine =
     ex_engine\<lparr>whitelist_domains := {''ads.example.com''},
               blacklist_domains := {''ads.example.com''}\<rparr>"

text \<open>An engine without rules that lists the host of \<open>ex_url\<close> in the blacklist.\<close>

definition ex_black_engine :: "mini_re filter_engine" where
  "ex_black_engine = new_engine\<lparr>blacklist_domains := {''ads.example.com''}\<rparr>"

text \<open>A rule that blocks URLs containing \<open>ads\<close> for requests carrying a token header.\<close>

definition ex_header_rule :: filter_rule where
  "ex_header_rule = (FilterRule ''ads'' ''block'')\<lparr>headers := Some [(''x-token'', ''1'')]\<rparr>"

text \<open>The headers of a request that came through another proxy.\<close>

definition ex_request_headers :: http_headers where
  "ex_request_headers = [(''Connection'', ''close''), (''Accept'', ''a''), (''Via'', ''1.1 p'')]"

text \<open>A rule with a domain, a path and a pattern that is a regular expression.\<close>

definition ex_triple_rule :: filter_rule where
  "ex_triple_rule =
     (FilterRule ''ads.*'' ''block'')\<lparr>domain := Some ''ads.example.com'', path := Some ''/x''\<rparr>"

text \<open>A rule store loaded with three rules.\<close>

definition ex_store :: "mini_re filter_engine" where
  "ex_store =
     add_rules plain_lib new_engine [FilterRule ''ads'' ''block'', ex_allow_rule, ex_triple_rule]"

text \<open>A URL whose host is written with capital letters.\<close>

definition ex_url_mixed :: string where
  "ex_url_mixed = ''http://Ads.Example.COM/ads''"



text \<open>The used engine after a request for another URL at time 1.\<close>

definition ex_engine_other :: "mini_re filter_engine" where
  "ex_engine_other =
     snd (the (should_block plain_lib ex_engine_used 1 ''http://other.example/'' ''GET'' None None))"

text \<open>A page that has been through the processor once, as \<open>process_html\<close> leaves it.\<close>

definition ex_rewritten :: bytes where
  "ex_rewritten =
     lit ''<head>'' @ style_tag new_content_processor @ lit ''</head><body>''
       @ script_tag new_content_processor @ lit ''</body>''"

section \<open>The decision cache\<close>

lemma should_block_computed:
  assumes "should_block lib s now url meth hdrs ctype = Some ((v, r), s')"
      and "\<not> cache_hit s now (meth @ '':'' @ url)"
  shows "s' = update_cache s now (meth @ '':'' @ url) v"
  using assms
  by (auto simp: should_block_def decide_by_def Let_def split: option.splits if_splits prod.splits)

lemma add_rule_keeps_cache:
  "cache (add_rule lib s r) = cache s" "cache_expiry (add_rule lib s r) = cache_expiry s"
  "cache_ttl (add_rule lib s r) = cache_ttl s"
  by (simp_all add: add_rule_def Let_def split: option.splits)

lemma ex_url_parsed:
  "urlparse plain_lib ex_url = Some \<lparr>netloc = ''ads.example.com'', url_path = ''/x''\<rparr>"
  by code_simp

lemma ex_host_lower: "str_lower ''ads.example.com'' = ''ads.example.com''"
  by (simp add: str_lower_def lower_chr_def is_upper_def)

lemma ex_listed_no_hit: "\<not> cache_hit ex_listed_engine 0 (''GET'' @ '':'' @ ex_url)"
  by code_simp

text \<open>
  C1 (as amended). \<open>should_block\<close> looks at the cache before it looks at the whitelist.
  For every request whose lowered authority is in the whitelist and whose key
  \<open>method:url\<close> has no fresh cache entry, \<open>should_block\<close> returns not-blocked with no
  rule, whatever the blacklist and the rules are, and caches that verdict.
\<close>

theorem whitelisted_not_blocked:
  assumes "urlparse lib url = Some parsed"
      and "str_lower (netloc parsed) \<in> whitelist_domains s"
      and "\<not> cache_hit s now (meth @ '':'' @ url)"
  shows "should_block lib s now url meth hdrs ctype
           = Some ((False, None), update_cache s now (meth @ '':'' @ url) False)"
  using assms by (simp add: should_block_def Let_def)

text \<open>
  The theorem at an engine that has the host of the request in the whitelist and in the
  blacklist and a rule that blocks the URL.
\<close>

theorem whitelisted_not_blocked_witness:
  "urlparse plain_lib ex_url = Some \<lparr>netloc = ''ads.example.com'', url_path = ''/x''\<rparr>
   \<and> str_lower (netloc \<lparr>netloc = ''ads.example.com'', url_path = ''/x''\<rparr>)
        \<in> whitelist_domains ex_listed_engine
   \<and> str_lower (netloc \<lparr>netloc = ''ads.example.com'', url_path = ''/x''\<rparr>)
        \<in> blacklist_domains ex_listed_engine
   \<and> \<not> cache_hit ex_listed_engine 0 (''GET'' @ '':'' @ ex_url)
   \<and> should_block plain_lib ex_listed_engine 0 ex_url ''GET'' None None
       = Some ((False, None), update_cache ex_listed_engine 0 (''GET'' @ '':'' @ ex_url) False)"
proof -
  have wl: "str_lower (netloc \<lparr>netloc = ''ads.example.com'', url_path = ''/x''\<rparr>)
              \<in> whitelist_domains ex_listed_engine"
    by (simp add: ex_host_lower ex_listed_engine_def)
  have bl: "str_lower (netloc \<lparr>netloc = ''ads.example.com'', url_path = ''/x''\<rparr>)
              \<in> blacklist_domains ex_listed_engine"
    by (simp add: ex_host_lower ex_listed_engine_def)
  show ?thesis
    using whitelisted_not_blocked [OF ex_url_parsed wl ex_listed_no_hit]
      ex_url_parsed wl bl ex_listed_no_hit
    by simp
qed

text \<open>
  C1 as stated fails: the engine blocks \<open>ex_url\<close> at time 0, the host is then put on the
  whitelist, and the request at time 10 is still answered blocked, from the cache.
\<close>

theorem whitelisted_blocked_counterexample:
  "str_lower (netloc (the (urlparse plain_lib ex_url)))
      \<in> whitelist_domains (ex_engine_used\<lparr>whitelist_domains := {''ads.example.com''}\<rparr>)
   \<and> map_option fst
        (should_block plain_lib (ex_engine_used\<lparr>whitelist_domains := {''ads.example.com''}\<rparr>)
           10 ex_url ''GET'' None None)
       = Some (True, None)"
  by code_simp

text \<open>
  C4 (as amended). For every request whose lowered authority is in the blacklist and
  not in the whitelist, and whose key has no fresh cache entry, \<open>should_block\<close> returns
  blocked with no rule and caches that verdict.
\<close>

theorem blacklisted_blocked:
  assumes "urlparse lib url = Some parsed"
      and "str_lower (netloc parsed) \<in> blacklist_domains s"
      and "str_lower (netloc parsed) \<notin> whitelist_domains s"
      and "\<not> cache_hit s now (meth @ '':'' @ url)"
  shows "should_block lib s now url meth hdrs ctype
           = Some ((True, None), update_cache s now (meth @ '':'' @ url) True)"
  using assms by (simp add: should_block_def Let_def)

theorem blacklisted_blocked_witness:
  "urlparse plain_lib ex_url = Some \<lparr>netloc = ''ads.example.com'', url_path = ''/x''\<rparr>
   \<and> str_lower (netloc \<lparr>netloc = ''ads.example.com'', url_path = ''/x''\<rparr>)
        \<in> blacklist_domains ex_black_engine
   \<and> str_lower (netloc \<lparr>netloc = ''ads.example.com'', url_path = ''/x''\<rparr>)
        \<notin> whitelist_domains ex_black_engine
   \<and> \<not> cache_hit ex_black_engine 0 (''GET'' @ '':'' @ ex_url)
   \<and> should_block plain_lib ex_black_engine 0 ex_url ''GET'' None None
       = Some ((True, None), update_cache ex_black_engine 0 (''GET'' @ '':'' @ ex_url) True)"
proof -
  have bl: "str_lower (netloc \<lparr>netloc = ''ads.example.com'', url_path = ''/x''\<rparr>)
              \<in> blacklist_domains ex_black_engine"
    by (simp add: ex_host_lower ex_black_engine_def)
  have wl: "str_lower (netloc \<lparr>netloc = ''ads.example.com'', url_path = ''/x''\<rparr>)
              \<notin> whitelist_domains ex_black_engine"
    by (simp add: ex_black_engine_def new_engine_def)
  have miss: "\<not> cache_hit ex_black_engine 0 (''GET'' @ '':'' @ ex_url)"
    by (simp add: cache_hit_def ex_black_engine_def new_engine_def)
  show ?thesis
    using blacklisted_blocked [OF ex_url_parsed bl wl miss] ex_url_parsed bl wl miss
    by simp
qed

text \<open>
  C4 as stated fails: an engine without rules allows \<open>ex_url\<close> at time 0, the host is
  then put on the blacklist, and the request at time 10 is still answered not-blocked.
\<close>

theorem blacklisted_allowed_counterexample:
  "str_lower (netloc (the (urlparse plain_lib ex_url)))
      \<in> blacklist_domains (ex_empty_used\<lparr>blacklist_domains := {''ads.example.com''}\<rparr>)
   \<and> str_lower (netloc (the (urlparse plain_lib ex_url)))
      \<notin> whitelist_domains (ex_empty_used\<lparr>blacklist_domains := {''ads.example.com''}\<rparr>)
   \<and> map_option fst
        (should_block plain_lib (ex_empty_used\<lparr>blacklist_domains := {''ads.example.com''}\<rparr>)
           10 ex_url ''GET'' None None)
       = Some (False, None)"
  by code_simp

lemma should_block_other_key:
  assumes "should_block lib s now url meth hdrs ctype = Some (res, s')"
      and "meth @ '':'' @ url \<noteq> key"
  shows "cache s' key = cache s key" and "cache_expiry s' key = cache_expiry s key"
  using assms
  by (auto simp: should_block_def decide_by_def update_cache_def Let_def
           split: option.splits if_splits prod.splits)

text \<open>
  C3 (as amended). The 300 seconds count from the call that computed the verdict. If a
  call of \<open>should_block\<close> at time \<open>t1\<close> finds no fresh cache entry for its key and returns
  verdict \<open>v\<close>, then a call with the same method and URL at any time \<open>t2 < t1 + 300\<close>
  returns \<open>v\<close> with no rule and leaves the engine as it is, as long as the entry under
  that key is the one the first call stored: whatever happened in between to the
  entries of other keys, the rules, the indices, the whitelist and the blacklist, and
  whatever headers and content type the second call supplies. Requests for other keys
  and \<open>add_rule\<close> leave the entry as it is.
\<close>

theorem cached_verdict_reused:
  assumes "should_block lib s0 t1 url meth hdrs1 ctype1 = Some ((v, r), s1)"
      and "\<not> cache_hit s0 t1 (meth @ '':'' @ url)"
      and "cache_ttl s0 = 300"
      and "cache s2 (meth @ '':'' @ url) = cache s1 (meth @ '':'' @ url)"
      and "cache_expiry s2 (meth @ '':'' @ url) = cache_expiry s1 (meth @ '':'' @ url)"
      and "t2 < t1 + 300"
  shows "should_block lib s2 t2 url meth hdrs2 ctype2 = Some ((v, None), s2)"
proof -
  let ?key = "meth @ '':'' @ url"
  have s1: "s1 = update_cache s0 t1 ?key v"
    using assms(1,2) by (rule should_block_computed)
  have parsed: "urlparse lib url \<noteq> None"
    using assms(1) by (auto simp: should_block_def split: option.splits)
  have "cache s2 ?key = Some v" and "cache_expiry s2 ?key = Some (t1 + 300)"
    using assms(3,4,5) s1 by (simp_all add: update_cache_def)
  then have "cache_hit s2 t2 ?key" and "cache s2 ?key = Some v"
    using assms(6) by (simp_all add: cache_hit_def)
  then show ?thesis
    using parsed by (auto simp: should_block_def Let_def split: option.splits)
qed

lemma ex_first_call:
  "should_block plain_lib ex_engine 0 ex_url ''GET'' None None
     = Some ((True, Some (FilterRule ''ads'' ''block'')), ex_engine_used)"
proof -
  have "map_option fst (should_block plain_lib ex_engine 0 ex_url ''GET'' None None)
          = Some (True, Some (FilterRule ''ads'' ''block''))"
    by code_simp
  then show ?thesis by (auto simp: ex_engine_used_def)
qed

lemma ex_first_miss: "\<not> cache_hit ex_engine 0 (''GET'' @ '':'' @ ex_url)"
  by code_simp

lemma ex_ttl: "cache_ttl ex_engine = 300"
  by (simp add: ex_engine_def add_rule_keeps_cache new_engine_def)

lemma ex_other_call:
  "should_block plain_lib ex_engine_used 1 ''http://other.example/'' ''GET'' None None
     = Some ((False, None), ex_engine_other)"
proof -
  have "map_option fst
          (should_block plain_lib ex_engine_used 1 ''http://other.example/'' ''GET'' None None)
          = Some (False, None)"
    by code_simp
  then show ?thesis by (auto simp: ex_engine_other_def)
qed

lemma ex_other_cached: "cache ex_engine_other (''GET'' @ '':'' @ ''http://other.example/'') = Some False"
  by code_simp

lemma ex_used_not_cached: "cache ex_engine_used (''GET'' @ '':'' @ ''http://other.example/'') = None"
  by code_simp

text \<open>
  The theorem at the example engine: the first call at time 0 blocks by the rule; then
  another URL is requested, the host is put on the whitelist and an allowing rule is
  added; the call at time 299, with other headers and content type, is still answered
  blocked.
\<close>

theorem cached_verdict_reused_witness:
  "should_block plain_lib ex_engine 0 ex_url ''GET'' None None
     = Some ((True, Some (FilterRule ''ads'' ''block'')), ex_engine_used)
   \<and> \<not> cache_hit ex_engine 0 (''GET'' @ '':'' @ ex_url)
   \<and> cache_ttl ex_engine = 300
   \<and> should_block plain_lib ex_engine_used 1 ''http://other.example/'' ''GET'' None None
       = Some ((False, None), ex_engine_other)
   \<and> cache ex_engine_other \<noteq> cache ex_engine_used
   \<and> (299 :: real) < 0 + 300
   \<and> should_block plain_lib
        (add_rule plain_lib (ex_engine_other\<lparr>whitelist_domains := {''ads.example.com''}\<rparr>)
           ex_allow_rule)
        299 ex_url ''GET'' (Some [(''accept'', ''text/html'')]) (Some ''text/html'')
       = Some ((True, None),
           add_rule plain_lib (ex_engine_other\<lparr>whitelist_domains := {''ads.example.com''}\<rparr>)
             ex_allow_rule)"
proof -
  let ?key = "''GET'' @ '':'' @ ex_url"
  let ?s2 = "add_rule plain_lib (ex_engine_other\<lparr>whitelist_domains := {''ads.example.com''}\<rparr>)
               ex_allow_rule"
  have ne: "''GET'' @ '':'' @ ''http://other.example/'' \<noteq> ?key"
    by (simp add: ex_url_def)
  have c: "cache ?s2 ?key = cache ex_engine_used ?key"
    "cache_expiry ?s2 ?key = cache_expiry ex_engine_used ?key"
    using should_block_other_key [OF ex_other_call ne] by (simp_all add: add_rule_keeps_cache)
  have d: "cache ex_engine_other \<noteq> cache ex_engine_used"
    using ex_other_cached ex_used_not_cached by (metis option.distinct(1))
  have t: "(299 :: real) < 0 + 300" by simp
  show ?thesis
    using cached_verdict_reused [OF ex_first_call ex_first_miss ex_ttl c t]
      ex_first_call ex_first_miss ex_ttl ex_other_call d
    by simp
qed

text \<open>
  C3 as stated fails when the first of the two calls is itself answered from the cache.
  The verdict for \<open>ex_url\<close> is computed at time 0. The call at time 299 is a cache hit and
  returns blocked; an allowing rule for the host is then added; the call at time 400,
  101 seconds later, finds the entry expired and returns not-blocked.
\<close>

theorem later_call_differs_counterexample:
  "map_option fst (should_block plain_lib ex_engine_used 299 ex_url ''GET'' None None)
     = Some (True, None)
   \<and> map_option fst (should_block plain_lib ex_engine_changed 400 ex_url ''GET'' None None)
     = Some (False, Some ex_allow_rule)
   \<and> (400 :: real) - 299 < 300"
  by code_simp

section \<open>Constraint matching\<close>

text \<open>
  C6 (as amended). The headers of a rule are compared only when the caller supplies a
  dictionary that is not empty. For every rule with a non-empty headers constraint: a
  request with a non-empty header dictionary is accepted by \<open>_match_rule\<close> exactly when
  the other constraints accept it and every header name the rule lists is present in
  the caller's headers with an equal value; a request that supplies no headers, or an
  empty dictionary, is accepted exactly when the other constraints accept it.
\<close>

theorem match_rule_headers:
  assumes "headers rule = Some rh" and "rh \<noteq> []"
  shows "if hdrs = None \<or> hdrs = Some []
         then match_rule rule url meth hdrs ctype
                = match_rule (rule\<lparr>headers := None\<rparr>) url meth hdrs ctype
         else match_rule rule url meth hdrs ctype
                = (match_rule (rule\<lparr>headers := None\<rparr>) url meth hdrs ctype
                   \<and> (\<forall>(key, val) \<in> set rh. map_of (the hdrs) key = Some val))"
  using assms
  by (cases hdrs) (auto simp: match_rule_def list_all_iff)

theorem match_rule_headers_witness:
  "headers ex_header_rule = Some [(''x-token'', ''1'')]
   \<and> match_rule ex_header_rule ex_url ''GET'' (Some [(''accept'', ''a''), (''x-token'', ''1'')]) None
   \<and> map_of [(''accept'', ''a''), (''x-token'', ''1'')] ''x-token'' = Some ''1''
   \<and> \<not> match_rule ex_header_rule ex_url ''GET'' (Some [(''x-token'', ''2'')]) None
   \<and> \<not> match_rule ex_header_rule ex_url ''GET'' (Some [(''accept'', ''a'')]) None"
proof -
  have h: "headers ex_header_rule = Some [(''x-token'', ''1'')]"
    by (simp add: ex_header_rule_def)
  have ne: "[(''x-token'', ''1'')] \<noteq> ([] :: (string \<times> string) list)" by simp
  have base: "match_rule (ex_header_rule\<lparr>headers := None\<rparr>) ex_url ''GET'' hdrs None" for hdrs
    by (simp add: match_rule_def ex_header_rule_def FilterRule_def truthy_def)
  show ?thesis
    using match_rule_headers [OF h ne, of "Some [(''accept'', ''a''), (''x-token'', ''1'')]" ex_url "''GET''" None]
      match_rule_headers [OF h ne, of "Some [(''x-token'', ''2'')]" ex_url "''GET''" None]
      match_rule_headers [OF h ne, of "Some [(''accept'', ''a'')]" ex_url "''GET''" None]
      h base
    by simp
qed

text \<open>
  C6 as stated fails: a request without headers, or with an empty header dictionary,
  satisfies a rule that requires a header.
\<close>

theorem no_headers_accepted_counterexample:
  "headers ex_header_rule = Some [(''x-token'', ''1'')]
   \<and> match_rule ex_header_rule ex_url ''GET'' None None
   \<and> match_rule ex_header_rule ex_url ''GET'' (Some []) None"
  by (simp add: match_rule_def ex_header_rule_def FilterRule_def truthy_def)

section \<open>The content processor on undecodable input\<close>

text \<open>
  C7. For every byte sequence that is not decodable as UTF-8, \<open>process_html\<close> returns
  the input unchanged: no error, no injection.
\<close>

theorem undecodable_unchanged:
  assumes "utf8_decode content = None"
  shows "process_html cp content url = Some content"
  using assms by (simp add: process_html_def)

theorem undecodable_unchanged_witness:
  "utf8_decode [255] = None \<and> utf8_decode [72, 192, 128] = None
   \<and> process_html new_content_processor [255] ex_url = Some [255]
   \<and> process_html new_content_processor [72, 192, 128] ex_url = Some [72, 192, 128]"
proof -
  have a: "utf8_decode [255] = None" by simp
  have b: "utf8_decode [72, 192, 128] = None" by simp
  show ?thesis
    using undecodable_unchanged [OF a, of new_content_processor ex_url]
      undecodable_unchanged [OF b, of new_content_processor ex_url] a b
    by simp
qed

section \<open>Stealth headers\<close>

lemma same_name_sym: "same_name a b = same_name b a"
  by (auto simp: same_name_def)

lemma get_all_del:
  "hdr_get_all name (hdr_del other hs) = (if same_name name other then [] else hdr_get_all name hs)"
  by (induction hs) (auto simp: hdr_get_all_def hdr_del_def same_name_def)

lemma hdr_in_get_all: "hdr_in name hs = (hdr_get_all name hs \<noteq> [])"
  by (induction hs) (auto simp: hdr_in_def hdr_get_all_def)

lemma get_all_replace:
  "hdr_in other hs \<Longrightarrow>
   hdr_get_all name (hdr_replace other val hs)
     = (if same_name name other then [val] else hdr_get_all name hs)"
proof (induction hs)
  case Nil
  then show ?case by (simp add: hdr_in_def)
next
  case (Cons f hs)
  obtain k v where f: "f = (k, v)" by (cases f)
  show ?case
  proof (cases "same_name k other")
    case True
    then show ?thesis
      using f get_all_del [of name other hs]
      by (auto simp: hdr_get_all_def same_name_def)
  next
    case False
    then have "hdr_in other hs" using Cons.prems f by (simp add: hdr_in_def)
    then show ?thesis
      using Cons.IH False f by (auto simp: hdr_get_all_def same_name_def)
  qed
qed

lemma get_all_set:
  "hdr_get_all name (hdr_set other val hs)
     = (if same_name name other then [val] else hdr_get_all name hs)"
proof (cases "hdr_in other hs")
  case True
  then show ?thesis by (simp add: hdr_set_def get_all_replace)
next
  case False
  then have "hdr_get_all other hs = []" by (simp add: hdr_in_get_all)
  then have "same_name name other \<Longrightarrow> hdr_get_all name hs = []"
    by (simp add: hdr_get_all_def same_name_def)
  then show ?thesis
    using False by (auto simp: hdr_set_def hdr_get_all_def same_name_def)
qed

lemma get_all_set_if_absent:
  "hdr_get_all name (set_if_absent other val hs)
     = (if same_name name other \<and> hdr_get_all name hs = [] then [val] else hdr_get_all name hs)"
proof -
  have "same_name name other \<Longrightarrow> hdr_get_all other hs = hdr_get_all name hs"
    by (simp add: hdr_get_all_def same_name_def)
  then show ?thesis
    by (auto simp: set_if_absent_def get_all_set hdr_in_get_all)
qed

lemma get_all_strip:
  "hdr_get_all name (if hdr_in other hs then hdr_del other hs else hs)
     = (if same_name name other then [] else hdr_get_all name hs)"
proof -
  have "same_name name other \<Longrightarrow> hdr_get_all other hs = hdr_get_all name hs"
    by (simp add: hdr_get_all_def same_name_def)
  then show ?thesis by (auto simp: get_all_del hdr_in_get_all)
qed

lemma lower_literals:
  "str_lower ''proxy-connection'' = ''proxy-connection''"
  "str_lower ''proxy-authorization'' = ''proxy-authorization''"
  "str_lower ''x-forwarded-for'' = ''x-forwarded-for''"
  "str_lower ''x-real-ip'' = ''x-real-ip''"
  "str_lower ''via'' = ''via''"
  "str_lower ''user-agent'' = ''user-agent''"
  "str_lower ''accept'' = ''accept''"
  "str_lower ''accept-language'' = ''accept-language''"
  "str_lower ''accept-encoding'' = ''accept-encoding''"
  "str_lower ''dnt'' = ''dnt''"
  "str_lower ''connection'' = ''connection''"
  "str_lower ''upgrade-insecure-requests'' = ''upgrade-insecure-requests''"
  by (simp_all add: str_lower_def lower_chr_def is_upper_def)



lemma get_all_strip_proxy:
  "hdr_get_all name
     (foldl (\<lambda>h header. if hdr_in header h then hdr_del header h else h) hs headers_to_remove)
     = (if str_lower name \<in> set headers_to_remove then [] else hdr_get_all name hs)"
  unfolding headers_to_remove_def foldl.simps
  by (simp add: get_all_strip same_name_def lower_literals)

text \<open>
  C5 (as amended). The values a header name has after \<open>_add_stealth_headers\<close>, for every
  name and every request: none for the five proxy headers; \<open>1\<close>, \<open>keep-alive\<close> and \<open>1\<close>
  for \<open>dnt\<close>, \<open>connection\<close> and \<open>upgrade-insecure-requests\<close>, whether or not the request
  had them; for every other name the values of the request when it had the header;
  the browser default for \<open>user-agent\<close>, \<open>accept\<close>, \<open>accept-language\<close> and
  \<open>accept-encoding\<close> when it had not; and none otherwise.
\<close>

theorem stealth_headers_values:
  "hdr_get_all name (add_stealth_headers hs) =
     (if str_lower name \<in> set headers_to_remove then []
      else if str_lower name = ''dnt'' then [''1'']
      else if str_lower name = ''connection'' then [''keep-alive'']
      else if str_lower name = ''upgrade-insecure-requests'' then [''1'']
      else if hdr_in name hs then hdr_get_all name hs
      else if str_lower name = ''user-agent'' then [default_user_agent]
      else if str_lower name = ''accept'' then [default_accept]
      else if str_lower name = ''accept-language'' then [''en-US,en;q=0.5'']
      else if str_lower name = ''accept-encoding'' then [''gzip, deflate'']
      else [])"
proof -
  define h1 where
    "h1 = foldl (\<lambda>h header. if hdr_in header h then hdr_del header h else h) hs headers_to_remove"
  have g1: "hdr_get_all name h1
              = (if str_lower name \<in> set headers_to_remove then [] else hdr_get_all name hs)"
    unfolding h1_def by (rule get_all_strip_proxy)
  have out: "add_stealth_headers hs =
      hdr_set ''upgrade-insecure-requests'' ''1''
       (hdr_set ''connection'' ''keep-alive''
         (hdr_set ''dnt'' ''1''
           (set_if_absent ''accept-encoding'' ''gzip, deflate''
             (set_if_absent ''accept-language'' ''en-US,en;q=0.5''
               (set_if_absent ''accept'' default_accept
                 (set_if_absent ''user-agent'' default_user_agent h1))))))"
    unfolding add_stealth_headers_def Let_def h1_def by (rule refl)
  have sn: "same_name name x = (str_lower name = str_lower x)" for x
    by (simp add: same_name_def)
  note step = get_all_set get_all_set_if_absent sn lower_literals g1 hdr_in_get_all
  consider (rm) "str_lower name \<in> set headers_to_remove"
    | (dnt) "str_lower name = ''dnt''"
    | (conn) "str_lower name = ''connection''"
    | (upg) "str_lower name = ''upgrade-insecure-requests''"
    | (ua) "str_lower name = ''user-agent''"
    | (acc) "str_lower name = ''accept''"
    | (al) "str_lower name = ''accept-language''"
    | (ae) "str_lower name = ''accept-encoding''"
    | (other) "str_lower name \<notin> set headers_to_remove" "str_lower name \<noteq> ''dnt''"
        "str_lower name \<noteq> ''connection''" "str_lower name \<noteq> ''upgrade-insecure-requests''"
        "str_lower name \<noteq> ''user-agent''" "str_lower name \<noteq> ''accept''"
        "str_lower name \<noteq> ''accept-language''" "str_lower name \<noteq> ''accept-encoding''"
    by blast
  then show ?thesis
  proof cases
    case rm
    then show ?thesis unfolding out by (auto simp: step headers_to_remove_def)
  next
    case dnt
    then show ?thesis unfolding out by (simp add: step headers_to_remove_def)
  next
    case conn
    then show ?thesis unfolding out by (simp add: step headers_to_remove_def)
  next
    case upg
    then show ?thesis unfolding out by (simp add: step headers_to_remove_def)
  next
    case ua
    then show ?thesis unfolding out by (simp add: step headers_to_remove_def)
  next
    case acc
    then show ?thesis unfolding out by (simp add: step headers_to_remove_def)
  next
    case al
    then show ?thesis unfolding out by (simp add: step headers_to_remove_def)
  next
    case ae
    then show ?thesis unfolding out by (simp add: step headers_to_remove_def)
  next
    case other
    then show ?thesis unfolding out by (simp add: step)
  qed
qed

theorem stealth_headers_values_witness:
  "hdr_get_all ''Accept'' (add_stealth_headers ex_request_headers) = [''a'']
   \<and> hdr_get_all ''Accept-Language'' (add_stealth_headers ex_request_headers)
       = [''en-US,en;q=0.5'']
   \<and> hdr_get_all ''Via'' (add_stealth_headers ex_request_headers) = []"
proof -
  have l: "str_lower ''Accept'' = ''accept''" "str_lower ''Accept-Language'' = ''accept-language''"
    "str_lower ''Via'' = ''via''"
    by code_simp+
  have i: "hdr_in ''Accept'' ex_request_headers" "\<not> hdr_in ''Accept-Language'' ex_request_headers"
    by code_simp+
  have g: "hdr_get_all ''Accept'' ex_request_headers = [''a'']"
    by code_simp
  show ?thesis
    using stealth_headers_values [of "''Accept''" ex_request_headers]
      stealth_headers_values [of "''Accept-Language''" ex_request_headers]
      stealth_headers_values [of "''Via''" ex_request_headers]
    by (simp add: l i g headers_to_remove_def)
qed

text \<open>
  C5 as stated fails for the last three headers: a request that asks for
  \<open>Connection: close\<close> leaves with \<open>keep-alive\<close>.
\<close>

theorem connection_overwritten_counterexample:
  "hdr_in ''connection'' ex_request_headers
   \<and> hdr_get_all ''connection'' ex_request_headers = [''close'']
   \<and> hdr_get_all ''connection'' (add_stealth_headers ex_request_headers) = [''keep-alive'']"
  by code_simp

section \<open>The indices of the rule store\<close>

lemma bucket_index_append:
  "bucket (index_append m k r) k' = bucket m k' @ (if k' = k then [r] else [])"
  by (simp add: bucket_def index_append_def)

lemma add_rule_rules: "rules (add_rule lib s r) = rules s @ [r]"
  by (simp add: add_rule_def Let_def split: option.splits)

lemma add_rule_domain_rules:
  "bucket (domain_rules (add_rule lib s r)) d
     = bucket (domain_rules s) d @ (if domain r = Some d \<and> d \<noteq> [] then [r] else [])"
  by (cases "domain r")
     (auto simp: add_rule_def Let_def truthy_def bucket_index_append split: option.splits)

lemma add_rule_path_rules:
  "bucket (path_rules (add_rule lib s r)) p
     = bucket (path_rules s) p @ (if path r = Some p \<and> p \<noteq> [] then [r] else [])"
  by (cases "path r")
     (auto simp: add_rule_def Let_def truthy_def bucket_index_append split: option.splits)

lemma add_rule_regex_rules:
  "regex_rules (add_rule lib s r)
     = regex_rules s @
       (if has_regex_char (pattern r)
        then (case re_compile lib (pattern r) [IGNORECASE] of
                Some regex \<Rightarrow> [(regex, r)] | None \<Rightarrow> [])
        else [])"
  by (simp add: add_rule_def Let_def split: option.splits)

lemma add_rules_snoc: "add_rules lib s (rs @ [r]) = add_rule lib (add_rules lib s rs) r"
  by (simp add: add_rules_def)

lemma add_rules_rules: "rules (add_rules lib new_engine rs) = rs"
  by (induction rs rule: rev_induct)
     (simp_all add: add_rules_snoc add_rule_rules, simp add: add_rules_def new_engine_def)

lemma add_rules_domain_rules:
  "bucket (domain_rules (add_rules lib new_engine rs)) d
     = filter (\<lambda>r. domain r = Some d \<and> d \<noteq> []) rs"
proof (induction rs rule: rev_induct)
  case Nil
  show ?case by (simp add: add_rules_def new_engine_def bucket_def)
next
  case (snoc r rs)
  then show ?case by (simp add: add_rules_snoc add_rule_domain_rules)
qed

lemma add_rules_path_rules:
  "bucket (path_rules (add_rules lib new_engine rs)) p
     = filter (\<lambda>r. path r = Some p \<and> p \<noteq> []) rs"
proof (induction rs rule: rev_induct)
  case Nil
  show ?case by (simp add: add_rules_def new_engine_def bucket_def)
next
  case (snoc r rs)
  then show ?case by (simp add: add_rules_snoc add_rule_path_rules)
qed

lemma add_rules_regex_list:
  "regex_rules (add_rules lib new_engine rs)
     = concat (map (\<lambda>r. if has_regex_char (pattern r)
                          then (case re_compile lib (pattern r) [IGNORECASE] of
                                  Some regex \<Rightarrow> [(regex, r)] | None \<Rightarrow> [])
                          else []) rs)"
proof (induction rs rule: rev_induct)
  case Nil
  show ?case by (simp add: add_rules_def new_engine_def)
next
  case (snoc r rs)
  then show ?case by (simp add: add_rules_snoc add_rule_regex_rules)
qed

lemma add_rules_regex_rules:
  "(regex, r) \<in> set (regex_rules (add_rules lib new_engine rs))
     \<longleftrightarrow> r \<in> set rs \<and> has_regex_char (pattern r)
           \<and> re_compile lib (pattern r) [IGNORECASE] = Some regex"
  by (auto simp: add_rules_regex_list split: if_splits option.splits)

text \<open>
  C2 (as amended). \<open>add_rule\<close> tests the domain, the path and the pattern of a rule
  independently of each other. In a store loaded by \<open>add_rule\<close>, a rule is in the domain
  index (under its own domain) exactly when its domain is set and not empty, in the
  path index exactly when its path is set and not empty, and in the regex index exactly
  when its pattern has a regex character and compiles; the literal fallback pass sees
  exactly the rules with no domain, no path and no regex character. A rule of the
  fallback pass is in none of the three indices; the three indices do not exclude one
  another.
\<close>

theorem add_rules_tiers:
  assumes "s = add_rules lib new_engine rs"
  shows "(r \<in> set (bucket (domain_rules s) d) \<longleftrightarrow> r \<in> set rs \<and> domain r = Some d \<and> d \<noteq> [])
       \<and> (r \<in> set (bucket (path_rules s) p) \<longleftrightarrow> r \<in> set rs \<and> path r = Some p \<and> p \<noteq> [])
       \<and> ((regex, r) \<in> set (regex_rules s) \<longleftrightarrow>
            r \<in> set rs \<and> has_regex_char (pattern r)
            \<and> re_compile lib (pattern r) [IGNORECASE] = Some regex)
       \<and> (r \<in> set (filter fallback_literal (rules s)) \<longleftrightarrow>
            r \<in> set rs \<and> \<not> truthy (domain r) \<and> \<not> truthy (path r)
            \<and> \<not> has_regex_char (pattern r))
       \<and> (fallback_literal r \<longrightarrow>
            r \<notin> set (bucket (domain_rules s) d) \<and> r \<notin> set (bucket (path_rules s) p)
            \<and> (regex, r) \<notin> set (regex_rules s))"
  unfolding assms
  by (auto simp: add_rules_domain_rules add_rules_path_rules add_rules_regex_rules
        add_rules_rules fallback_literal_def truthy_def)

theorem add_rules_tiers_witness:
  "FilterRule ''ads'' ''block'' \<in> set (filter fallback_literal (rules ex_store))
   \<and> FilterRule ''ads'' ''block'' \<notin> set (bucket (domain_rules ex_store) ''ads.example.com'')
   \<and> FilterRule ''ads'' ''block'' \<notin> set (bucket (path_rules ex_store) ''/x'')
   \<and> ((True, []), FilterRule ''ads'' ''block'') \<notin> set (regex_rules ex_store)
   \<and> ex_allow_rule \<in> set (bucket (domain_rules ex_store) ''ads.example.com'')
   \<and> ex_allow_rule \<notin> set (filter fallback_literal (rules ex_store))"
proof -
  have s: "ex_store =
      add_rules plain_lib new_engine [FilterRule ''ads'' ''block'', ex_allow_rule, ex_triple_rule]"
    by (simp add: ex_store_def)
  have f: "fallback_literal (FilterRule ''ads'' ''block'')"
    by code_simp
  have d: "domain ex_allow_rule = Some ''ads.example.com''"
    by (simp add: ex_allow_rule_def)
  show ?thesis
    using add_rules_tiers [OF s, of "FilterRule ''ads'' ''block''" "''ads.example.com''" "''/x''" "(True, [])"]
      add_rules_tiers [OF s, of ex_allow_rule "''ads.example.com''" "''/x''" "(True, [])"] f d
    by (simp add: fallback_literal_def truthy_def FilterRule_def)
qed

text \<open>
  C2 as stated fails: a rule with a domain, a path and a regex pattern is put into all
  three indices.
\<close>

theorem rule_in_three_indices_counterexample:
  "ex_triple_rule
     \<in> set (bucket (domain_rules (add_rule plain_lib new_engine ex_triple_rule)) ''ads.example.com'')
   \<and> ex_triple_rule
     \<in> set (bucket (path_rules (add_rule plain_lib new_engine ex_triple_rule)) ''/x'')
   \<and> ex_triple_rule
     \<in> snd ` set (regex_rules (add_rule plain_lib new_engine ex_triple_rule))"
  by code_simp

section \<open>Letter case of listed domains\<close>

lemma lower_chr_not_upper: "\<not> is_upper (lower_chr c)"
proof (cases "is_upper c")
  case True
  then have "of_char (char_of ((of_char c :: nat) + 32)) = (of_char c :: nat) + 32"
    by (simp add: is_upper_def)
  then show ?thesis using True by (simp add: lower_chr_def is_upper_def)
next
  case False
  then show ?thesis by (simp add: lower_chr_def)
qed

lemma str_lower_no_upper: "c \<in> set (str_lower n) \<Longrightarrow> \<not> is_upper c"
  by (auto simp: str_lower_def lower_chr_not_upper)

lemma str_lower_neq_upper_entry:
  assumes "\<exists>c \<in> set e. is_upper c"
  shows "str_lower n \<noteq> e"
  using assms str_lower_no_upper by blast

lemma str_lower_id:
  assumes "\<forall>c \<in> set e. \<not> is_upper c"
  shows "str_lower e = e"
  using assms by (induction e) (auto simp: str_lower_def lower_chr_def)

lemma should_block_extra_whitelist:
  assumes "\<And>n. str_lower n \<noteq> e"
  shows "should_block lib (s\<lparr>whitelist_domains := insert e (whitelist_domains s)\<rparr>)
           now url meth hdrs ctype
         = map_option (apsnd (\<lambda>s'. s'\<lparr>whitelist_domains := insert e (whitelist_domains s')\<rparr>))
             (should_block lib s now url meth hdrs ctype)"
  using assms
  by (auto simp: should_block_def Let_def cache_hit_def update_cache_def decide_by_def
           split: option.splits prod.splits)

lemma should_block_extra_blacklist:
  assumes "\<And>n. str_lower n \<noteq> e"
  shows "should_block lib (s\<lparr>blacklist_domains := insert e (blacklist_domains s)\<rparr>)
           now url meth hdrs ctype
         = map_option (apsnd (\<lambda>s'. s'\<lparr>blacklist_domains := insert e (blacklist_domains s')\<rparr>))
             (should_block lib s now url meth hdrs ctype)"
  using assms
  by (auto simp: should_block_def Let_def cache_hit_def update_cache_def decide_by_def
           split: option.splits prod.splits)

lemma add_rule_keeps_lists:
  "whitelist_domains (add_rule lib s r) = whitelist_domains s"
  "blacklist_domains (add_rule lib s r) = blacklist_domains s"
  by (simp_all add: add_rule_def Let_def split: option.splits)

lemma add_rules_keeps_lists:
  "whitelist_domains (add_rules lib s rs) = whitelist_domains s"
  "blacklist_domains (add_rules lib s rs) = blacklist_domains s"
  by (induction rs rule: rev_induct) (simp_all add: add_rules_snoc add_rule_keeps_lists, simp_all add: add_rules_def)

text \<open>
  C9. The two domain sets hold the entries of the configuration as they are written,
  and \<open>should_block\<close> compares them with the lowered authority. So an entry with an
  uppercase letter equals no lowered authority, and adding it to the whitelist or to
  the blacklist changes the result of no request; and an authority that differs from
  an entry without uppercase letters only by letter case equals that entry once
  lowered, so that (when no cached verdict is fresh) a whitelist entry makes the request
  not-blocked and a blacklist entry makes it blocked.
\<close>

theorem listed_domain_case:
  "whitelist_domains (load_config lib s0 cfg) = set (cfg_whitelist_domains cfg)
   \<and> blacklist_domains (load_config lib s0 cfg) = set (cfg_blacklist_domains cfg)
   \<and> ((\<exists>c \<in> set e. is_upper c) \<longrightarrow>
      (\<forall>n. str_lower n \<noteq> e)
      \<and> should_block lib (s\<lparr>whitelist_domains := insert e (whitelist_domains s)\<rparr>)
            now url meth hdrs ctype
          = map_option (apsnd (\<lambda>s'. s'\<lparr>whitelist_domains := insert e (whitelist_domains s')\<rparr>))
              (should_block lib s now url meth hdrs ctype)
      \<and> should_block lib (s\<lparr>blacklist_domains := insert e (blacklist_domains s)\<rparr>)
            now url meth hdrs ctype
          = map_option (apsnd (\<lambda>s'. s'\<lparr>blacklist_domains := insert e (blacklist_domains s')\<rparr>))
              (should_block lib s now url meth hdrs ctype))
   \<and> ((\<forall>c \<in> set e. \<not> is_upper c) \<and> urlparse lib url = Some parsed
        \<and> str_lower (netloc parsed) = str_lower e
        \<and> \<not> cache_hit s now (meth @ '':'' @ url) \<longrightarrow>
      str_lower (netloc parsed) = e
      \<and> (e \<in> whitelist_domains s \<longrightarrow>
            map_option fst (should_block lib s now url meth hdrs ctype) = Some (False, None))
      \<and> (e \<in> blacklist_domains s \<and> e \<notin> whitelist_domains s \<longrightarrow>
            map_option fst (should_block lib s now url meth hdrs ctype) = Some (True, None)))"
proof (intro conjI impI)
  show "whitelist_domains (load_config lib s0 cfg) = set (cfg_whitelist_domains cfg)"
    by (simp add: load_config_def add_rules_keeps_lists)
  show "blacklist_domains (load_config lib s0 cfg) = set (cfg_blacklist_domains cfg)"
    by (simp add: load_config_def add_rules_keeps_lists)
next
  assume up: "\<exists>c \<in> set e. is_upper c"
  then have ne: "str_lower n \<noteq> e" for n by (rule str_lower_neq_upper_entry)
  then show "\<forall>n. str_lower n \<noteq> e" by blast
  show "should_block lib (s\<lparr>whitelist_domains := insert e (whitelist_domains s)\<rparr>)
            now url meth hdrs ctype
          = map_option (apsnd (\<lambda>s'. s'\<lparr>whitelist_domains := insert e (whitelist_domains s')\<rparr>))
              (should_block lib s now url meth hdrs ctype)"
    using ne by (rule should_block_extra_whitelist)
  show "should_block lib (s\<lparr>blacklist_domains := insert e (blacklist_domains s)\<rparr>)
            now url meth hdrs ctype
          = map_option (apsnd (\<lambda>s'. s'\<lparr>blacklist_domains := insert e (blacklist_domains s')\<rparr>))
              (should_block lib s now url meth hdrs ctype)"
    using ne by (rule should_block_extra_blacklist)
next
  assume a: "(\<forall>c \<in> set e. \<not> is_upper c) \<and> urlparse lib url = Some parsed
        \<and> str_lower (netloc parsed) = str_lower e
        \<and> \<not> cache_hit s now (meth @ '':'' @ url)"
  then show eq: "str_lower (netloc parsed) = e" by (simp add: str_lower_id)
  {
    assume "e \<in> whitelist_domains s"
    then show "map_option fst (should_block lib s now url meth hdrs ctype) = Some (False, None)"
      using a eq by (simp add: should_block_def Let_def)
  }
  {
    assume "e \<in> blacklist_domains s \<and> e \<notin> whitelist_domains s"
    then show "map_option fst (should_block lib s now url meth hdrs ctype) = Some (True, None)"
      using a eq by (simp add: should_block_def Let_def)
  }
qed


lemma ex_url_mixed_parsed:
  "urlparse plain_lib ex_url_mixed = Some \<lparr>netloc = ''Ads.Example.COM'', url_path = ''/ads''\<rparr>"
  by code_simp

lemma ex_mixed_lower:
  "str_lower (netloc \<lparr>netloc = ''Ads.Example.COM'', url_path = ''/ads''\<rparr>)
     = str_lower ''ads.example.com''"
  by code_simp

lemma ex_mixed_blocked:
  "map_option fst (should_block plain_lib ex_engine 0 ex_url_mixed ''GET'' None None)
     = Some (True, Some (FilterRule ''ads'' ''block''))"
  by code_simp

theorem listed_domain_case_witness:
  "is_upper (hd ''Ads.Example.COM'')
   \<and> map_option fst
        (should_block plain_lib
           (ex_engine\<lparr>whitelist_domains := insert ''Ads.Example.COM'' (whitelist_domains ex_engine)\<rparr>)
           0 ex_url_mixed ''GET'' None None)
       = Some (True, Some (FilterRule ''ads'' ''block''))
   \<and> ''ads.example.com'' \<in> whitelist_domains ex_listed_engine
   \<and> map_option fst (should_block plain_lib ex_listed_engine 0 ex_url_mixed ''GET'' None None)
       = Some (False, None)
   \<and> ''ads.example.com'' \<in> blacklist_domains ex_black_engine
   \<and> map_option fst (should_block plain_lib ex_black_engine 0 ex_url_mixed ''GET'' None None)
       = Some (True, None)"
proof -
  have up: "is_upper (hd ''Ads.Example.COM'')"
    by (simp add: is_upper_def)
  then have ex: "\<exists>c \<in> set ''Ads.Example.COM''. is_upper c"
    by simp
  have lo: "\<forall>c \<in> set ''ads.example.com''. \<not> is_upper c"
    by (simp add: is_upper_def)
  have miss1: "\<not> cache_hit ex_listed_engine 0 (''GET'' @ '':'' @ ex_url_mixed)"
    by (simp add: cache_hit_def ex_listed_engine_def ex_engine_def add_rule_keeps_cache
          new_engine_def)
  have miss2: "\<not> cache_hit ex_black_engine 0 (''GET'' @ '':'' @ ex_url_mixed)"
    by (simp add: cache_hit_def ex_black_engine_def new_engine_def)
  have wl: "''ads.example.com'' \<in> whitelist_domains ex_listed_engine"
    by (simp add: ex_listed_engine_def)
  have bl: "''ads.example.com'' \<in> blacklist_domains ex_black_engine"
    "''ads.example.com'' \<notin> whitelist_domains ex_black_engine"
    by (simp_all add: ex_black_engine_def new_engine_def)
  have a: "map_option fst
        (should_block plain_lib
           (ex_engine\<lparr>whitelist_domains := insert ''Ads.Example.COM'' (whitelist_domains ex_engine)\<rparr>)
           0 ex_url_mixed ''GET'' None None)
       = Some (True, Some (FilterRule ''ads'' ''block''))"
  proof -
    have "should_block plain_lib
           (ex_engine\<lparr>whitelist_domains := insert ''Ads.Example.COM'' (whitelist_domains ex_engine)\<rparr>)
           0 ex_url_mixed ''GET'' None None
         = map_option
             (apsnd (\<lambda>s'. s'\<lparr>whitelist_domains :=
                                  insert ''Ads.Example.COM'' (whitelist_domains s')\<rparr>))
             (should_block plain_lib ex_engine 0 ex_url_mixed ''GET'' None None)"
      using listed_domain_case [of plain_lib _ _ "''Ads.Example.COM''" ex_engine 0 ex_url_mixed
          "''GET''" None None] ex
      by blast
    then show ?thesis
      using ex_mixed_blocked by (simp add: option.map_comp comp_def)
  qed
  have b: "map_option fst (should_block plain_lib ex_listed_engine 0 ex_url_mixed ''GET'' None None)
       = Some (False, None)"
    using listed_domain_case [of plain_lib _ _ "''ads.example.com''" ex_listed_engine 0 ex_url_mixed
        "''GET''" None None "\<lparr>netloc = ''Ads.Example.COM'', url_path = ''/ads''\<rparr>"]
      lo ex_url_mixed_parsed ex_mixed_lower miss1 wl
    by blast
  have c: "map_option fst (should_block plain_lib ex_black_engine 0 ex_url_mixed ''GET'' None None)
       = Some (True, None)"
    using listed_domain_case [of plain_lib _ _ "''ads.example.com''" ex_black_engine 0 ex_url_mixed
        "''GET''" None None "\<lparr>netloc = ''Ads.Example.COM'', url_path = ''/ads''\<rparr>"]
      lo ex_url_mixed_parsed ex_mixed_lower miss2 bl
    by blast
  show ?thesis using up a b c wl bl by blast
qed

section \<open>Letter case in the regex tier and in the literal tier\<close>

lemma lower_chr_newline: "(lower_chr c = CHR 0x0A) = (c = CHR 0x0A)"
proof (cases "is_upper c")
  case True
  then have "of_char (char_of ((of_char c :: nat) + 32)) = (of_char c :: nat) + 32"
    by (simp add: is_upper_def)
  then have "(of_char (lower_chr c) :: nat) \<noteq> 10"
    using True by (simp add: lower_chr_def)
  moreover have "(of_char c :: nat) \<noteq> 10"
    using True by (simp add: is_upper_def)
  ultimately show ?thesis by auto
next
  case False
  then show ?thesis by (simp add: lower_chr_def)
qed

lemma atom_ok_case:
  assumes "lower_chr c = lower_chr c'"
  shows "atom_ok True a c = atom_ok True a c'"
proof (cases a)
  case (Lit x)
  then show ?thesis using assms by simp
next
  case AnyChar
  then show ?thesis using assms lower_chr_newline [of c] lower_chr_newline [of c'] by simp
qed

lemma match_here_case:
  assumes "str_lower s = str_lower s'"
  shows "match_here True items s = match_here True items s'"
  using assms
proof (induction "True" items s arbitrary: s' rule: match_here.induct)
  case (1 s)
  then show ?case by simp
next
  case (2 a items)
  then show ?case by (simp add: str_lower_def)
next
  case (3 a items c s)
  then obtain c' t where s': "s' = c' # t" "lower_chr c = lower_chr c'" "str_lower s = str_lower t"
    by (cases s') (auto simp: str_lower_def)
  then show ?case using 3 atom_ok_case [of c c' a] by simp
next
  case (4 a items)
  then show ?case by (simp add: str_lower_def)
next
  case (5 a items c s)
  then obtain c' t where s': "s' = c' # t" "lower_chr c = lower_chr c'" "str_lower s = str_lower t"
    by (cases s') (auto simp: str_lower_def)
  have "match_here True items (c # s) = match_here True items (c' # t)"
    using 5 s' by (simp add: str_lower_def)
  moreover have "match_here True ((a, True) # items) s = match_here True ((a, True) # items) t"
    using 5 s' by simp
  ultimately show ?case using s' atom_ok_case [of c c' a] by simp
qed

lemma search_from_case:
  assumes "str_lower s = str_lower s'"
  shows "search_from True items s = search_from True items s'"
  using assms
proof (induction s arbitrary: s')
  case Nil
  then show ?case by (simp add: str_lower_def)
next
  case (Cons c s)
  then obtain c' t where s': "s' = c' # t" "str_lower s = str_lower t"
    by (cases s') (auto simp: str_lower_def)
  then show ?case
    using Cons.IH [of t] match_here_case [OF Cons.prems, of items] by simp
qed

lemma mini_search_ignores_case:
  assumes "mini_compile p [IGNORECASE] = Some regex" and "str_lower u = str_lower u'"
  shows "mini_search regex u = mini_search regex u'"
proof -
  have "fst regex = True" using assms(1) by (auto simp: mini_compile_def)
  then show ?thesis
    using search_from_case [OF assms(2), of "snd regex"] by (simp add: mini_search_def)
qed


lemma match_rule_any_url:
  "match_rule rule url meth hdrs ctype = match_rule rule url' meth hdrs ctype"
  by (simp add: match_rule_def)

lemma regex_tier_ignores_case:
  assumes "s = add_rules plain_lib new_engine rs" and "str_lower url = str_lower url'"
  shows "find (\<lambda>(regex, rule). re_search plain_lib regex url
                                 \<and> match_rule rule url meth hdrs ctype) (regex_rules s)
       = find (\<lambda>(regex, rule). re_search plain_lib regex url'
                                 \<and> match_rule rule url' meth hdrs ctype) (regex_rules s)"
proof (rule find_cong [OF refl])
  fix x
  assume x: "x \<in> set (regex_rules s)"
  obtain regex rule where xr: "x = (regex, rule)" by (cases x)
  then have "mini_compile (pattern rule) [IGNORECASE] = Some regex"
    using x assms(1) add_rules_regex_rules [of regex rule plain_lib rs]
    by (simp add: plain_lib_def)
  then have "mini_search regex url = mini_search regex url'"
    using assms(2) by (rule mini_search_ignores_case)
  then show "(case x of (regex, rule) \<Rightarrow>
                re_search plain_lib regex url \<and> match_rule rule url meth hdrs ctype)
           = (case x of (regex, rule) \<Rightarrow>
                re_search plain_lib regex url' \<and> match_rule rule url' meth hdrs ctype)"
    using xr match_rule_any_url [of rule url meth hdrs ctype url']
    by (simp add: plain_lib_def)
qed

lemma ex_regex_tier_blocks:
  "map_option fst
     (should_block plain_lib (add_rule plain_lib new_engine (FilterRule ''ads.example'' ''block''))
        0 ''ADS.EXAMPLE'' ''GET'' None None)
     = Some (True, Some (FilterRule ''ads.example'' ''block''))"
  by code_simp

lemma ex_literal_tier_allows:
  "map_option fst
     (should_block plain_lib (add_rule plain_lib new_engine (FilterRule ''adsexample'' ''block''))
        0 ''ADSEXAMPLE'' ''GET'' None None)
     = Some (False, None)"
  by code_simp

lemma ex_literal_tier_blocks:
  "map_option fst
     (should_block plain_lib (add_rule plain_lib new_engine (FilterRule ''adsexample'' ''block''))
        0 ''adsexample'' ''GET'' None None)
     = Some (True, Some (FilterRule ''adsexample'' ''block''))"
  by code_simp

lemma ex_tier_patterns:
  "has_regex_char ''ads.example''" "\<not> has_regex_char ''adsexample''"
  "str_lower ''ADS.EXAMPLE'' = ''ads.example''" "str_lower ''ADSEXAMPLE'' = ''adsexample''"
  by code_simp+

text \<open>
  C10. \<open>add_rule\<close> compiles the pattern of every rule it puts into the regex index with
  \<open>IGNORECASE\<close>. With the library instance, the outcome of the regex pass over a loaded
  store is then the same for two URLs that differ only in letter case, while the
  literal pass tests containment of the pattern as it is written. So the rule
  \<open>ads.example\<close>, of the regex tier, blocks the URL \<open>ADS.EXAMPLE\<close>, and the rule
  \<open>adsexample\<close>, of the literal tier, does not block the URL \<open>ADSEXAMPLE\<close>, which it
  blocks in lower case.
\<close>

theorem tiers_differ_in_letter_case:
  "regex_rules (add_rule lib s rule)
     = regex_rules s @
       (if has_regex_char (pattern rule)
        then (case re_compile lib (pattern rule) [IGNORECASE] of
                Some regex \<Rightarrow> [(regex, rule)] | None \<Rightarrow> [])
        else [])
   \<and> (str_lower url = str_lower url' \<longrightarrow>
        find (\<lambda>(regex, rule). re_search plain_lib regex url
                                 \<and> match_rule rule url meth hdrs ctype)
          (regex_rules (add_rules plain_lib new_engine rs))
        = find (\<lambda>(regex, rule). re_search plain_lib regex url'
                                   \<and> match_rule rule url' meth hdrs ctype)
            (regex_rules (add_rules plain_lib new_engine rs)))
   \<and> has_regex_char ''ads.example'' \<and> str_lower ''ADS.EXAMPLE'' = ''ads.example''
   \<and> map_option fst
        (should_block plain_lib
           (add_rule plain_lib new_engine (FilterRule ''ads.example'' ''block''))
           0 ''ADS.EXAMPLE'' ''GET'' None None)
       = Some (True, Some (FilterRule ''ads.example'' ''block''))
   \<and> \<not> has_regex_char ''adsexample'' \<and> str_lower ''ADSEXAMPLE'' = ''adsexample''
   \<and> map_option fst
        (should_block plain_lib
           (add_rule plain_lib new_engine (FilterRule ''adsexample'' ''block''))
           0 ''ADSEXAMPLE'' ''GET'' None None)
       = Some (False, None)
   \<and> map_option fst
        (should_block plain_lib
           (add_rule plain_lib new_engine (FilterRule ''adsexample'' ''block''))
           0 ''adsexample'' ''GET'' None None)
       = Some (True, Some (FilterRule ''adsexample'' ''block''))"
proof -
  have "find (\<lambda>(regex, rule). re_search plain_lib regex url
                                 \<and> match_rule rule url meth hdrs ctype)
          (regex_rules (add_rules plain_lib new_engine rs))
        = find (\<lambda>(regex, rule). re_search plain_lib regex url'
                                   \<and> match_rule rule url' meth hdrs ctype)
            (regex_rules (add_rules plain_lib new_engine rs))"
    if "str_lower url = str_lower url'"
    using refl that by (rule regex_tier_ignores_case)
  then show ?thesis
    using ex_regex_tier_blocks ex_literal_tier_allows ex_literal_tier_blocks ex_tier_patterns
    by (simp add: add_rule_regex_rules)
qed

theorem tiers_differ_in_letter_case_witness:
  "str_lower ''ADS.EXAMPLE'' = str_lower ''ads.example''
   \<and> find (\<lambda>(regex, rule). re_search plain_lib regex ''ADS.EXAMPLE''
                               \<and> match_rule rule ''ADS.EXAMPLE'' ''GET'' None None)
        (regex_rules (add_rules plain_lib new_engine [FilterRule ''ads.example'' ''block'']))
     = find (\<lambda>(regex, rule). re_search plain_lib regex ''ads.example''
                                 \<and> match_rule rule ''ads.example'' ''GET'' None None)
         (regex_rules (add_rules plain_lib new_engine [FilterRule ''ads.example'' ''block'']))"
proof -
  have l: "str_lower ''ADS.EXAMPLE'' = str_lower ''ads.example''"
    by code_simp
  show ?thesis
    using tiers_differ_in_letter_case [of plain_lib new_engine "FilterRule ''ads.example'' ''block''"
        "''ADS.EXAMPLE''" "''ads.example''" "''GET''" None None
        "[FilterRule ''ads.example'' ''block'']"] l
    by blast
qed

section \<open>UTF-8 round trip\<close>












section \<open>Occurrences of a substring\<close>


lemma find_sub_prefix: "find_sub p s = Some i \<Longrightarrow> prefix p (drop i s)"
  by (induction s arbitrary: i) (auto split: if_splits)

lemma find_sub_first: "find_sub p s = Some i \<Longrightarrow> k < i \<Longrightarrow> \<not> prefix p (drop k s)"
proof (induction s arbitrary: i k)
  case Nil
  then show ?case by (auto split: if_splits)
next
  case (Cons c s)
  show ?case
  proof (cases "prefix p (c # s)")
    case True
    then show ?thesis using Cons.prems by simp
  next
    case False
    then obtain j where j: "find_sub p s = Some j" "i = Suc j"
      using Cons.prems(1) by auto
    show ?thesis
    proof (cases k)
      case 0
      then show ?thesis using False by simp
    next
      case (Suc k')
      then show ?thesis using Cons.IH [OF j(1), of k'] Cons.prems(2) j(2) by simp
    qed
  qed
qed

lemma find_sub_none: "find_sub p s = None \<Longrightarrow> \<not> prefix p (drop k s)"
proof (induction s arbitrary: k)
  case Nil
  then show ?case by (auto split: if_splits)
next
  case (Cons c s)
  then show ?case by (cases k) (auto split: if_splits)
qed

lemma find_sub_least:
  assumes "prefix p (drop i s)" and "i \<le> length s" and "\<And>k. k < i \<Longrightarrow> \<not> prefix p (drop k s)"
  shows "find_sub p s = Some i"
proof (cases "find_sub p s")
  case None
  then show ?thesis using find_sub_none [of p s i] assms(1) by simp
next
  case (Some j)
  have "\<not> j < i" using find_sub_prefix [OF Some] assms(3) by blast
  moreover have "\<not> i < j" using find_sub_first [OF Some] assms(1) by blast
  ultimately show ?thesis using Some by simp
qed



lemma prefix_short:
  assumes "prefix p (u @ v)" and "length p \<le> length u"
  shows "prefix p u"
  using assms by (auto simp: prefix_append)



lemma no_cross_suffix:
  "no_cross q t \<Longrightarrow> d < length t \<Longrightarrow> \<not> prefix q (drop d t) \<and> \<not> prefix (drop d t) q"
proof (induction t arbitrary: d)
  case Nil
  then show ?case by simp
next
  case (Cons c t)
  show ?case
  proof (cases d)
    case 0
    then show ?thesis using Cons.prems(1) by simp
  next
    case (Suc d')
    then show ?thesis using Cons.IH [of d'] Cons.prems by simp
  qed
qed

lemma prefix_drop_left:
  assumes "k + length q \<le> length a"
  shows "prefix q (drop k (a @ x)) = prefix q (drop k a)"
proof
  assume "prefix q (drop k (a @ x))"
  then have "prefix q (drop k a @ x)" using assms by simp
  then show "prefix q (drop k a)" using assms by (intro prefix_short [of q "drop k a" x]) simp_all
next
  assume "prefix q (drop k a)"
  then have "prefix q (drop k a @ x)" by (rule prefix_prefix)
  then show "prefix q (drop k (a @ x))" using assms by simp
qed


lemma prefix_drop_right:
  assumes "length a + length t \<le> k"
  shows "drop k (a @ t @ b) = drop (k - length t) (a @ b)"
  using assms by (simp add: add.commute)

text \<open>What an occurrence of \<open>q\<close> that overlaps an inserted \<open>t\<close> requires.\<close>

lemma overlap_cases:
  assumes occ: "prefix q (drop k (a @ t @ b))"
      and lo: "k < length a + length t" and hi: "length a < k + length q"
  shows "(k < length a \<and>
           (\<exists>m. 0 < m \<and> m < length q \<and> (prefix (drop m q) t \<or> prefix t (drop m q))))
       \<or> (length a \<le> k \<and> k - length a < length t
            \<and> (prefix q (drop (k - length a) t) \<or> prefix (drop (k - length a) t) q))"
proof (cases "k < length a")
  case True
  let ?u = "drop k a"
  have u: "0 < length ?u" "length ?u < length q" using True hi by auto
  have "prefix q (?u @ t @ b)" using occ True by simp
  then obtain us where us: "q = ?u @ us" "prefix us (t @ b)"
    using u(2) by (auto simp: prefix_append dest: prefix_length_le)
  have d: "drop (length ?u) q = us" using us(1) by (metis append_eq_conv_conj)
  have "prefix us t \<or> prefix t us"
    using us(2) by (auto simp: prefix_append)
  then have "prefix (drop (length ?u) q) t \<or> prefix t (drop (length ?u) q)"
    using d by simp
  then show ?thesis using True u by blast
next
  case False
  let ?d = "k - length a"
  have d: "?d < length t" using False lo by simp
  have "drop k (a @ t @ b) = drop ?d t @ b" using False d by simp
  then have "prefix q (drop ?d t @ b)" using occ by simp
  then have "prefix q (drop ?d t) \<or> prefix (drop ?d t) q"
    by (auto simp: prefix_append)
  then show ?thesis using False d by simp
qed

lemma occ_insert_other:
  assumes "no_cross q t" and "no_cross t (tl q)"
  shows "prefix q (drop k (a @ t @ b))
       = ((k + length q \<le> length a \<and> prefix q (drop k (a @ b)))
          \<or> (length a + length t \<le> k \<and> prefix q (drop (k - length t) (a @ b))))"
proof (cases "k < length a + length t \<and> length a < k + length q")
  case True
  have "\<not> prefix q (drop k (a @ t @ b))"
  proof
    assume "prefix q (drop k (a @ t @ b))"
    then consider
        m where "0 < m" "m < length q" "prefix (drop m q) t \<or> prefix t (drop m q)"
      | "k - length a < length t"
        "prefix q (drop (k - length a) t) \<or> prefix (drop (k - length a) t) q"
      using overlap_cases [of q k a t b] True by blast
    then show False
    proof cases
      case 1
      have "m - 1 < length (tl q)" using 1(1,2) by simp
      moreover have "drop (m - 1) (tl q) = drop m q" using 1(1) by (simp add: drop_Suc [symmetric])
      ultimately show False using no_cross_suffix [OF assms(2), of "m - 1"] 1(3) by simp
    next
      case 2
      then show False using no_cross_suffix [OF assms(1), of "k - length a"] by simp
    qed
  qed
  then show ?thesis using True by auto
next
  case False
  then consider "k + length q \<le> length a" | "length a + length t \<le> k" by linarith
  then show ?thesis
  proof cases
    case 1
    have "q = []" if "length a + length t \<le> k" using 1 that by (cases q) auto
    then show ?thesis
      using 1 prefix_drop_left [OF 1, of "t @ b"] prefix_drop_left [OF 1, of b] by auto
  next
    case 2
    have "q = []" if "k + length q \<le> length a" using 2 that by (cases q) auto
    then show ?thesis
      using 2 prefix_drop_right [OF 2, of b] by auto
  qed
qed

lemma occ_insert_self:
  assumes "no_cross t (tl t)" and "t \<noteq> []"
  shows "prefix t (drop k (a @ t @ b))
       = (k = length a
          \<or> (k + length t \<le> length a \<and> prefix t (drop k (a @ b)))
          \<or> (length a + length t \<le> k \<and> prefix t (drop (k - length t) (a @ b))))"
proof (cases "k = length a")
  case True
  then show ?thesis by simp
next
  case ne: False
  show ?thesis
  proof (cases "k < length a + length t \<and> length a < k + length t")
    case True
    have "\<not> prefix t (drop k (a @ t @ b))"
    proof
      assume "prefix t (drop k (a @ t @ b))"
      then consider
          m where "0 < m" "m < length t" "prefix (drop m t) t \<or> prefix t (drop m t)"
        | "length a \<le> k" "k - length a < length t"
          "prefix t (drop (k - length a) t) \<or> prefix (drop (k - length a) t) t"
        using overlap_cases [of t k a t b] True by blast
      then show False
      proof cases
        case 1
        have "m - 1 < length (tl t)" using 1(1,2) by simp
        moreover have "drop (m - 1) (tl t) = drop m t"
          using 1(1) by (simp add: drop_Suc [symmetric])
        ultimately show False using no_cross_suffix [OF assms(1), of "m - 1"] 1(3) by simp
      next
        case 2
        let ?d = "k - length a"
        obtain d' where d': "?d = Suc d'" using 2(1) ne by (cases ?d) auto
        have "d' < length (tl t)" "drop d' (tl t) = drop ?d t"
          using 2(2) d' by (simp_all add: drop_Suc)
        then show False using no_cross_suffix [OF assms(1), of d'] 2(3) by simp
      qed
    qed
    then show ?thesis using True ne by auto
  next
    case False
    then consider "k + length t \<le> length a" | "length a + length t \<le> k" by linarith
    then show ?thesis
    proof cases
      case 1
      have "\<not> length a + length t \<le> k" using 1 assms(2) by (cases t) auto
      then show ?thesis
        using 1 ne prefix_drop_left [OF 1, of "t @ b"] prefix_drop_left [OF 1, of b] by auto
    next
      case 2
      have "\<not> k + length t \<le> length a" using 2 assms(2) by (cases t) auto
      then show ?thesis
        using 2 ne prefix_drop_right [OF 2, of b] by auto
    qed
  qed
qed

lemma no_cross_prefix:
  assumes "prefix p q" and "no_cross p t"
  shows "no_cross q t"
  using assms(2)
proof (induction t)
  case Nil
  then show ?case by simp
next
  case (Cons c t)
  have "\<not> prefix q (c # t)"
    using Cons.prems assms(1) by (auto dest: prefix_order.trans)
  moreover have "\<not> prefix (c # t) q"
  proof
    assume "prefix (c # t) q"
    then have "prefix (c # t) p \<or> prefix p (c # t)"
      using assms(1) by (rule prefix_same_cases)
    then show False using Cons.prems by simp
  qed
  ultimately show ?case using Cons by simp
qed

lemma no_cross_skip:
  assumes "p \<noteq> []" and "hd p \<notin> set a"
  shows "no_cross p a"
  using assms(2)
proof (induction a)
  case Nil
  then show ?case by simp
next
  case (Cons c a)
  then show ?case using assms(1) by (cases p) auto
qed

lemma prefix_append_cases:
  assumes "prefix p (v @ b)"
  shows "prefix p v \<or> prefix v p"
  using assms by (auto simp: prefix_append)

lemma no_cross_append:
  assumes "no_cross p a" and "no_cross p b"
  shows "no_cross p (a @ b)"
  using assms(1)
proof (induction a)
  case Nil
  then show ?case using assms(2) by simp
next
  case (Cons c a)
  have n: "\<not> prefix p (c # a)" "\<not> prefix (c # a) p" "no_cross p a"
    using Cons.prems by simp_all
  have "\<not> prefix p ((c # a) @ b)"
    using prefix_append_cases [of p "c # a" b] n(1,2) by blast
  moreover have "\<not> prefix ((c # a) @ b) p"
    using append_prefixD [of "c # a" b p] n(2) by blast
  ultimately show ?case using Cons.IH [OF n(3)] by simp
qed

lemma no_cross_block:
  assumes "p \<noteq> []" and "no_cross p pre" and "hd p \<notin> set mid" and "no_cross p post"
  shows "no_cross p (pre @ mid @ post)"
proof -
  have "no_cross p mid" using assms(1,3) by (rule no_cross_skip)
  then have "no_cross p (mid @ post)" using assms(4) by (rule no_cross_append)
  with assms(2) show ?thesis by (rule no_cross_append)
qed

lemma no_cross_find_none:
  assumes "p \<noteq> []" and "no_cross p t"
  shows "find_sub p t = None"
  using assms(2)
proof (induction t)
  case Nil
  then show ?case using assms(1) by simp
next
  case (Cons c t)
  then have "\<not> prefix p (c # t)" and "find_sub p t = None" by simp_all
  then show ?case by simp
qed

lemma find_sub_after:
  assumes "no_cross p a"
  shows "find_sub p (a @ p @ b) = Some (length a)"
proof (rule find_sub_least)
  show "prefix p (drop (length a) (a @ p @ b))" by simp
  show "length a \<le> length (a @ p @ b)" by simp
  fix k
  assume k: "k < length a"
  have "\<not> prefix p (drop k a)" "\<not> prefix (drop k a) p"
    using no_cross_suffix [OF assms k] by simp_all
  then have "\<not> prefix p (drop k a @ p @ b)"
    using prefix_append_cases [of p "drop k a" "p @ b"] by blast
  then show "\<not> prefix p (drop k (a @ p @ b))" using k by simp
qed

lemma utf8_decode_ascii:
  assumes "list_all (\<lambda>c. c < 128) s"
  shows "utf8_decode s = Some s"
  using assms
proof (induction s)
  case Nil
  show ?case by simp
next
  case (Cons c s)
  then have c: "c < 128" and s: "utf8_decode s = Some s" by simp_all
  have "utf8_decode (c # s) = map_option ((#) c) (utf8_decode s)"
    using c by (simp only: utf8_decode.simps if_True)
  then show ?case using s by simp
qed

lemma join_all:
  assumes "list_all P sep" and "list_all (list_all P) xs"
  shows "list_all P (join sep xs)"
  using assms by (induction sep xs rule: join.induct) simp_all

section \<open>Injection into a document with head and body\<close>













end
